theory Spec2Isabelle
  imports Main "HOL-Library.Log_Nat"
begin

section \<open>The combatant model of py-cli-game/main.py\<close>

text \<open>
  Python strings are sequences of Unicode code points; the game's names and glyphs are
  not ASCII, so a string is a list of code points.
\<close>

type_synonym pystr = "nat list"

text \<open>
  \<^verbatim>\<open>class Character\<close>: the four attributes set by \<^verbatim>\<open>__init__\<close>.
  Python integers are unbounded, hence \<^typ>\<open>int\<close>.
\<close>

record Character =
  name :: pystr
  max_hp :: int
  hp :: int
  ap :: int

text \<open>
  Characters are mutable objects and \<^verbatim>\<open>attack\<close> writes to the object it is
  handed, which may be the attacker itself. Objects therefore live in a store indexed by
  object identity \<^typ>\<open>'r\<close>; a method takes the identities of \<^verbatim>\<open>self\<close> and of its
  argument and returns its result together with the updated store.
\<close>

type_synonym 'r store = "'r \<Rightarrow> Character"

text \<open>\<^verbatim>\<open>Character.__init__(self, name, hp, ap)\<close>: the state of the new object.\<close>

definition Character_init :: "pystr \<Rightarrow> int \<Rightarrow> int \<Rightarrow> Character" where
  "Character_init n h a = \<lparr>name = n, max_hp = h, hp = h, ap = a\<rparr>"

text \<open>
  \<^verbatim>\<open>damage = self.ap; target.hp = max(0, target.hp - damage); return damage\<close>
\<close>

definition attack :: "'r \<Rightarrow> 'r \<Rightarrow> 'r store \<Rightarrow> int \<times> 'r store" where
  "attack self target s =
     (let damage = ap (s self);
          s' = s(target := (s target)\<lparr>hp := max 0 (hp (s target) - damage)\<rparr>)
      in (damage, s'))"

text \<open>
  \<^verbatim>\<open>heal_amount = random.randint(10, 20); self.hp = min(self.max_hp, self.hp + heal_amount);
  return heal_amount\<close>. The draw is the only random value of the program; it is the
  first argument \<open>d\<close>, and \<^verbatim>\<open>randint(10, 20)\<close> yields exactly the integers of
  \<open>randint_range\<close>.
\<close>

definition randint_range :: "int set" where
  "randint_range = {10..20}"

definition heal :: "int \<Rightarrow> 'r \<Rightarrow> 'r store \<Rightarrow> int \<times> 'r store" where
  "heal d self s =
     (let heal_amount = d;
          s' = s(self := (s self)\<lparr>hp := min (max_hp (s self)) (hp (s self) + heal_amount)\<rparr>)
      in (heal_amount, s'))"

text \<open>\<^verbatim>\<open>return self.hp > 0\<close>\<close>

definition is_alive :: "'r \<Rightarrow> 'r store \<Rightarrow> bool" where
  "is_alive self s = (hp (s self) > 0)"

subsection \<open>Sequences of method calls\<close>

text \<open>
  A call of one of the two mutators: \<open>AttackCall a t\<close> is \<^verbatim>\<open>a.attack(t)\<close>,
  \<open>HealCall c d\<close> is \<^verbatim>\<open>c.heal()\<close> with draw \<open>d\<close>.
\<close>

datatype 'r call = AttackCall 'r 'r | HealCall 'r int

fun apply_call :: "'r call \<Rightarrow> 'r store \<Rightarrow> 'r store" where
  "apply_call (AttackCall a t) s = snd (attack a t s)"
| "apply_call (HealCall c d) s = snd (heal d c s)"

fun apply_calls :: "'r call list \<Rightarrow> 'r store \<Rightarrow> 'r store" where
  "apply_calls [] s = s"
| "apply_calls (c # cs) s = apply_calls cs (apply_call c s)"

text \<open>A call is admissible when its attacker has no negative attack power (the data
  model makes it positive) and its draw is one \<^verbatim>\<open>randint(10, 20)\<close> can return.\<close>

fun call_ok :: "'r store \<Rightarrow> 'r call \<Rightarrow> bool" where
  "call_ok s (AttackCall a t) = (0 \<le> ap (s a))"
| "call_ok s (HealCall c d) = (d \<in> randint_range)"

subsection \<open>The objects of the program and of its tests\<close>

text \<open>
  \<^verbatim>\<open>main\<close> binds the global names \<^verbatim>\<open>player\<close> and \<^verbatim>\<open>enemy\<close> to two
  new objects; the test fixture \<^verbatim>\<open>setUp\<close> creates two characters with the same
  numbers. The names are the code points of the Japanese literals in the source.
\<close>

datatype obj = player | enemy

fun main_objs :: "obj store" where
  "main_objs player = Character_init [12354, 12394, 12383] 100 15"
| "main_objs enemy = Character_init [12473, 12521, 12452, 12512] 80 10"

section \<open>The health bar: \<^verbatim>\<open>get_health_bar\<close>\<close>

subsection \<open>Python's float arithmetic, as far as the function uses it\<close>

text \<open>
  \<^verbatim>\<open>percent = hp / max_hp\<close> is Python's true division of two integers and
  \<^verbatim>\<open>int(length * percent)\<close> multiplies an integer with a float and truncates: the
  function computes in IEEE 754 binary64, not in exact arithmetic. The two exceptions
  that this arithmetic can raise are the errors of the model.
\<close>

datatype error = ZeroDivisionError | OverflowError

text \<open>
  A finite float is a pair \<open>(m, e)\<close> standing for the number \<open>m * 2 ^ e\<close>
  (\<open>float_val\<close>); the functions below are integer arithmetic on such pairs. Infinities
  and NaN are not values of the model: the only operation here that could produce one is
  the product, whose overflow makes the following \<^verbatim>\<open>int(...)\<close> raise
  \<^verbatim>\<open>OverflowError\<close>, so the product of the model raises it directly. The sign of
  zero is not kept; neither a comparison nor \<^verbatim>\<open>int(...)\<close> can see it.
\<close>

type_synonym pyfloat = "int \<times> int"

definition float_val :: "pyfloat \<Rightarrow> real" where
  "float_val x = of_int (fst x) * 2 powi (snd x)"

text \<open>The integer nearest to \<open>n / d\<close> (for \<open>0 < d\<close>), a tie going to the even one.\<close>

definition round_half_even :: "int \<Rightarrow> int \<Rightarrow> int" where
  "round_half_even n d =
     (let q = n div d; r = n mod d
      in if 2 * r < d then q else if d < 2 * r then q + 1 else if even q then q else q + 1)"

text \<open>
  The exponent of the last place of the binary64 format at \<open>n / d\<close> (for positive \<open>n\<close>
  and \<open>d\<close>): with \<open>k'\<close> the integer such that \<open>2 ^ k' \<le> n / d < 2 ^ (k' + 1)\<close>, found
  from the bit lengths, it is \<open>k' - 52\<close> (53 significant bits), and never below
  \<open>- 1074\<close>, the exponent of the subnormal numbers.
\<close>

definition ulp_exponent :: "int \<Rightarrow> int \<Rightarrow> int" where
  "ulp_exponent n d =
     (let k = bitlen n - bitlen d;
          k' = (if d * 2 ^ nat k \<le> n * 2 ^ nat (- k) then k else k - 1)
      in max (k' - 52) (- 1074))"

text \<open>Round-to-nearest, ties-to-even, of the positive fraction \<open>n / d\<close>: the result is
  a double and no double is nearer (\<open>round_to_double_nearest\<close> below).\<close>

definition round_to_double :: "int \<Rightarrow> int \<Rightarrow> pyfloat" where
  "round_to_double n d =
     (let e = ulp_exponent n d
      in (round_half_even (n * 2 ^ nat (- e)) (d * 2 ^ nat e), e))"

text \<open>
  The float nearest to the fraction \<open>n / d\<close> (for \<open>0 < d\<close>), or
  \<^verbatim>\<open>OverflowError\<close> when the rounded magnitude reaches \<open>2 ^ 1024\<close>.
\<close>

definition nearest_double :: "int \<Rightarrow> int \<Rightarrow> error + pyfloat" where
  "nearest_double n d =
     (if n = 0 then Inr (0, 0)
      else
        (let x = round_to_double \<bar>n\<bar> d
         in if 2 ^ 1024 \<le> fst x * 2 ^ nat (snd x) then Inl OverflowError
            else Inr (sgn n * fst x, snd x)))"

text \<open>
  \<^verbatim>\<open>a / b\<close> on integers: \<^verbatim>\<open>ZeroDivisionError\<close> for a zero divisor, else the
  correctly rounded quotient, \<^verbatim>\<open>OverflowError\<close> when it is too large for a float.
\<close>

definition int_truediv :: "int \<Rightarrow> int \<Rightarrow> error + pyfloat" where
  "int_truediv a b =
     (if b = 0 then Inl ZeroDivisionError else nearest_double (a * sgn b) \<bar>b\<bar>)"

text \<open>The conversion of an integer operand to float, correctly rounded.\<close>

definition float_of_int :: "int \<Rightarrow> error + pyfloat" where
  "float_of_int i = nearest_double i 1"

text \<open>The product of two floats: the exact product, rounded.\<close>

definition float_mul :: "pyfloat \<Rightarrow> pyfloat \<Rightarrow> error + pyfloat" where
  "float_mul x y =
     (let m = fst x * fst y; e = snd x + snd y
      in nearest_double (m * 2 ^ nat e) (2 ^ nat (- e)))"

text \<open>\<^verbatim>\<open>i * y\<close> for an integer \<open>i\<close> and a float \<open>y\<close>.\<close>

definition int_mul_float :: "int \<Rightarrow> pyfloat \<Rightarrow> error + pyfloat" where
  "int_mul_float i y =
     (case float_of_int i of Inl err \<Rightarrow> Inl err | Inr x \<Rightarrow> float_mul x y)"

text \<open>\<^verbatim>\<open>x < y\<close> on floats is exact.\<close>

definition float_less :: "pyfloat \<Rightarrow> pyfloat \<Rightarrow> bool" where
  "float_less x y =
     (let e = min (snd x) (snd y)
      in fst x * 2 ^ nat (snd x - e) < fst y * 2 ^ nat (snd y - e))"

text \<open>\<^verbatim>\<open>int(x)\<close> truncates toward zero.\<close>

definition int_of_float :: "pyfloat \<Rightarrow> int" where
  "int_of_float x =
     (if 0 \<le> snd x then fst x * 2 ^ nat (snd x)
      else sgn (fst x) * (\<bar>fst x\<bar> div 2 ^ nat (- snd x)))"

text \<open>The literals \<^verbatim>\<open>0.5\<close> and \<^verbatim>\<open>0.25\<close>.\<close>

definition half :: pyfloat where
  "half = (1, - 1)"

definition quarter :: pyfloat where
  "quarter = (1, - 2)"

subsection \<open>Strings\<close>

text \<open>
  colorama's \<^verbatim>\<open>Fore.GREEN\<close>, \<^verbatim>\<open>Fore.YELLOW\<close>, \<^verbatim>\<open>Fore.RED\<close> and
  \<^verbatim>\<open>Style.RESET_ALL\<close>: the escape character, \<^verbatim>\<open>[\<close>, the code 32, 33, 31
  or 0, and \<^verbatim>\<open>m\<close>.
\<close>

definition Fore_GREEN :: pystr where
  "Fore_GREEN = [27, 91, 51, 50, 109]"

definition Fore_YELLOW :: pystr where
  "Fore_YELLOW = [27, 91, 51, 51, 109]"

definition Fore_RED :: pystr where
  "Fore_RED = [27, 91, 51, 49, 109]"

definition Style_RESET_ALL :: pystr where
  "Style_RESET_ALL = [27, 91, 48, 109]"

text \<open>The decimal digits of a natural number, and \<^verbatim>\<open>str(i)\<close> as the f-string
  inserts it (45 is the minus sign).\<close>

fun digits :: "nat \<Rightarrow> pystr" where
  "digits n = (if n < 10 then [48 + n] else digits (n div 10) @ [48 + n mod 10])"

definition str_int :: "int \<Rightarrow> pystr" where
  "str_int i = (if i < 0 then 45 # digits (nat (- i)) else digits (nat i))"

text \<open>\<^verbatim>\<open>s * n\<close>: \<open>n\<close> copies of \<open>s\<close>, none when \<open>n\<close> is zero or negative.\<close>

definition str_mul :: "pystr \<Rightarrow> int \<Rightarrow> pystr" where
  "str_mul s n = concat (replicate (nat n) s)"

subsection \<open>The function\<close>

text \<open>\<^verbatim>\<open>filled_length = int(length * percent)\<close>\<close>

definition filled_length_of :: "int \<Rightarrow> pyfloat \<Rightarrow> error + int" where
  "filled_length_of len percent =
     (case int_mul_float len percent of Inl err \<Rightarrow> Inl err | Inr v \<Rightarrow> Inr (int_of_float v))"

text \<open>
  \<^verbatim>\<open>bar_color = Fore.GREEN; if percent < 0.5: bar_color = Fore.YELLOW;
  if percent < 0.25: bar_color = Fore.RED\<close>
\<close>

definition bar_color_of :: "pyfloat \<Rightarrow> pystr" where
  "bar_color_of percent =
     (let bar_color = Fore_GREEN;
          bar_color = (if float_less percent half then Fore_YELLOW else bar_color);
          bar_color = (if float_less percent quarter then Fore_RED else bar_color)
      in bar_color)"

text \<open>
  \<^verbatim>\<open>get_health_bar(hp, max_hp, length)\<close>. 9608 is the full block, 9472 the
  horizontal line, 91 and 93 the brackets, 32 the space and 47 the slash of the
  f-string \<^verbatim>\<open>"[{bar}] {hp}/{max_hp}"\<close>.
\<close>

definition get_health_bar :: "int \<Rightarrow> int \<Rightarrow> int \<Rightarrow> error + pystr" where
  "get_health_bar h mx len =
     (case int_truediv h mx of
        Inl err \<Rightarrow> Inl err
      | Inr percent \<Rightarrow>
          (case filled_length_of len percent of
             Inl err \<Rightarrow> Inl err
           | Inr filled_length \<Rightarrow>
               (let bar_color = bar_color_of percent;
                    bar = bar_color @ str_mul [9608] filled_length @ Style_RESET_ALL
                          @ str_mul [9472] (len - filled_length)
                in Inr ([91] @ bar @ [93, 32] @ str_int h @ [47] @ str_int mx))))"

text \<open>The call without a length, as \<^verbatim>\<open>display_status\<close> makes it: \<^verbatim>\<open>length=20\<close>.\<close>

definition get_health_bar_default :: "int \<Rightarrow> int \<Rightarrow> error + pystr" where
  "get_health_bar_default h mx = get_health_bar h mx 20"

text \<open>The values of the local variables \<^verbatim>\<open>filled_length\<close> and
  \<^verbatim>\<open>bar_color\<close> of a call.\<close>

definition filled_length :: "int \<Rightarrow> int \<Rightarrow> int \<Rightarrow> error + int" where
  "filled_length h mx len =
     (case int_truediv h mx of
        Inl err \<Rightarrow> Inl err
      | Inr percent \<Rightarrow> filled_length_of len percent)"

definition bar_color :: "int \<Rightarrow> int \<Rightarrow> error + pystr" where
  "bar_color h mx =
     (case int_truediv h mx of
        Inl err \<Rightarrow> Inl err
      | Inr percent \<Rightarrow> Inr (bar_color_of percent))"

subsection \<open>\<^verbatim>\<open>strip_ansi\<close> of the tests\<close>

text \<open>
  The tests read a bar through
  \<^verbatim>\<open>re.sub(r'\x1b\[([0-9]{1,2}(;[0-9]{1,2})?)?[m|K]', '', text)\<close>.
  \<open>ansi_match s\<close> is the length of the match of that pattern at the start of \<open>s\<close>, if
  there is one: the escape character and \<^verbatim>\<open>[\<close>; then nothing, or one or two
  digits, or those followed by \<^verbatim>\<open>;\<close> and one or two digits; then one of
  \<^verbatim>\<open>m\<close>, \<^verbatim>\<open>|\<close> and \<^verbatim>\<open>K\<close>. The final character is neither a digit nor
  \<^verbatim>\<open>;\<close>, so at most one way of reading the digits leads to a match.
\<close>

definition is_digit :: "nat \<Rightarrow> bool" where
  "is_digit c = (48 \<le> c \<and> c \<le> 57)"

definition is_final :: "nat \<Rightarrow> bool" where
  "is_final c = (c = 109 \<or> c = 124 \<or> c = 75)"

fun digits_prefix :: "pystr \<Rightarrow> nat" where
  "digits_prefix (a # b # r) = (if is_digit a then (if is_digit b then 2 else 1) else 0)"
| "digits_prefix [a] = (if is_digit a then 1 else 0)"
| "digits_prefix [] = 0"

definition final_at :: "pystr \<Rightarrow> nat \<Rightarrow> bool" where
  "final_at s i = (i < length s \<and> is_final (s ! i))"

definition ansi_match :: "pystr \<Rightarrow> nat option" where
  "ansi_match s =
     (case s of
        e # b # r \<Rightarrow>
          if e = 27 \<and> b = 91 then
            (let k = digits_prefix r in
             if k = 0 then (if final_at r 0 then Some 3 else None)
             else if final_at r k then Some (3 + k)
             else if k < length r \<and> r ! k = 59 then
               (let k2 = digits_prefix (drop (k + 1) r)
                in if k2 \<noteq> 0 \<and> final_at r (k + 1 + k2) then Some (3 + k + 1 + k2) else None)
             else None)
          else None
      | _ \<Rightarrow> None)"

text \<open>The substitution scans from the left; \<open>strip_from k\<close> still has \<open>k\<close>
  characters of the current match to drop.\<close>

fun strip_from :: "nat \<Rightarrow> pystr \<Rightarrow> pystr" where
  "strip_from k [] = []"
| "strip_from k (c # cs) =
     (if 0 < k then strip_from (k - 1) cs
      else (case ansi_match (c # cs) of
              Some n \<Rightarrow> strip_from (n - 1) cs
            | None \<Rightarrow> c # strip_from 0 cs))"

definition strip_ansi :: "pystr \<Rightarrow> pystr" where
  "strip_ansi s = strip_from 0 s"

subsection \<open>The formulas of the specification\<close>

text \<open>
  The specification's fill: \<open>floor (length * health / maxHealth)\<close>, clamped into
  \<open>[0, length]\<close>.
\<close>

definition spec_filled_length :: "int \<Rightarrow> int \<Rightarrow> int \<Rightarrow> int" where
  "spec_filled_length health maxHealth len = max 0 (min len ((len * health) div maxHealth))"

text \<open>
  The specification's severity: ratio at least 0.5 is normal, from 0.25 up to 0.5 is
  warning, below 0.25 is critical; normal is shown green, warning yellow, critical red.
\<close>

datatype severity = Normal | Warning | Critical

definition spec_severity :: "int \<Rightarrow> int \<Rightarrow> severity" where
  "spec_severity health maxHealth =
     (let ratio = real_of_int health / real_of_int maxHealth
      in if ratio < 1 / 4 then Critical else if ratio < 1 / 2 then Warning else Normal)"

fun severity_color :: "severity \<Rightarrow> pystr" where
  "severity_color Normal = Fore_GREEN"
| "severity_color Warning = Fore_YELLOW"
| "severity_color Critical = Fore_RED"

section \<open>The battle loop of \<^verbatim>\<open>main\<close>\<close>

text \<open>
  \<^verbatim>\<open>get_player_action(["Attack", "Heal"])\<close> returns the lower-cased option the
  player confirmed with Enter, so one of \<^verbatim>\<open>"attack"\<close> and \<^verbatim>\<open>"heal"\<close>.
\<close>

datatype action = Attack | Heal

text \<open>The three narration lines that \<^verbatim>\<open>main\<close> prints, with the number each shows.\<close>

datatype event = PlayerAttacked int | PlayerHealed int | EnemyAttacked int

text \<open>The local state of \<^verbatim>\<open>main\<close>: the two global objects, the turn counter and
  what has been narrated so far.\<close>

record battle =
  objs :: "obj store"
  turn :: int
  events :: "event list"

text \<open>
  Lines 96 to 101: \<^verbatim>\<open>if action == "attack": damage = player.attack(enemy) ...
  elif action == "heal": heal_amount = player.heal() ...\<close>. The second argument is
  the value \<^verbatim>\<open>random.randint\<close> returns if \<^verbatim>\<open>heal\<close> is called in this round.
\<close>

definition player_acts :: "action \<Rightarrow> int \<Rightarrow> battle \<Rightarrow> battle" where
  "player_acts act d b =
     (case act of
        Attack \<Rightarrow>
          (let (damage, s') = attack player enemy (objs b)
           in b\<lparr>objs := s', events := events b @ [PlayerAttacked damage]\<rparr>)
      | Heal \<Rightarrow>
          (let (heal_amount, s') = heal d player (objs b)
           in b\<lparr>objs := s', events := events b @ [PlayerHealed heal_amount]\<rparr>))"

text \<open>Lines 110 and 111: \<^verbatim>\<open>damage = enemy.attack(player)\<close> and its narration.\<close>

definition enemy_acts :: "battle \<Rightarrow> battle" where
  "enemy_acts b =
     (let (damage, s') = attack enemy player (objs b)
      in b\<lparr>objs := s', events := events b @ [EnemyAttacked damage]\<rparr>)"

text \<open>
  \<^verbatim>\<open>display_status(player, enemy)\<close> clears the screen and prints the names and the
  health bars of the two characters, each drawn by \<^verbatim>\<open>get_health_bar\<close> without a
  length (lines 52 and 55). Its value here is the two bars, or the exception of the first
  bar that raises one.
\<close>

definition display_status :: "obj store \<Rightarrow> error + pystr \<times> pystr" where
  "display_status s =
     (case get_health_bar_default (hp (s player)) (max_hp (s player)) of
        Inl err \<Rightarrow> Inl err
      | Inr player_bar \<Rightarrow>
          (case get_health_bar_default (hp (s enemy)) (max_hp (s enemy)) of
             Inl err \<Rightarrow> Inl err
           | Inr enemy_bar \<Rightarrow> Inr (player_bar, enemy_bar)))"

text \<open>The data model of a combatant: positive maximum health and attack power, health
  between 0 and the maximum.\<close>

definition well_formed :: "Character \<Rightarrow> bool" where
  "well_formed c = (0 < max_hp c \<and> 0 \<le> hp c \<and> hp c \<le> max_hp c \<and> 0 < ap c)"

text \<open>
  The \<^verbatim>\<open>while player.is_alive() and enemy.is_alive()\<close> loop, run on the list of
  the player's confirmed choices (each with the draw of that round). The loop blocks in
  \<^verbatim>\<open>get_player_action\<close> until a choice arrives: \<open>Waiting b\<close> is the loop
  standing at the head of a round in state \<open>b\<close> with no choice left to read,
  \<open>Ended b\<close> is the loop left (by its condition or by \<^verbatim>\<open>break\<close>) in state \<open>b\<close>.
  \<^verbatim>\<open>print\<close> and \<^verbatim>\<open>input\<close> only write to and wait for the terminal, and
  so does \<^verbatim>\<open>display_status\<close> as long as drawing the two health bars raises
  nothing; it raises nothing in any state that the loop passes through from the start
  of \<^verbatim>\<open>main\<close> (\<open>main_display_status\<close> below), so the loop is modelled without it.
\<close>

datatype run = Waiting battle | Ended battle

fun battle_loop :: "(action \<times> int) list \<Rightarrow> battle \<Rightarrow> run" where
  "battle_loop [] b =
     (if is_alive player (objs b) \<and> is_alive enemy (objs b) then Waiting b else Ended b)"
| "battle_loop ((act, d) # rest) b =
     (if is_alive player (objs b) \<and> is_alive enemy (objs b) then
        (let b1 = player_acts act d b in
         if \<not> is_alive enemy (objs b1) then Ended b1
         else
           (let b2 = enemy_acts b1
            in battle_loop rest (b2\<lparr>turn := turn b2 + 1\<rparr>)))
      else Ended b)"

fun state_of :: "run \<Rightarrow> battle" where
  "state_of (Waiting b) = b"
| "state_of (Ended b) = b"

fun has_ended :: "run \<Rightarrow> bool" where
  "has_ended (Waiting b) = False"
| "has_ended (Ended b) = True"

text \<open>
  Lines 117 to 120, after the loop: the victory message if the player is alive, the
  defeat message otherwise.
\<close>

datatype outcome = PlayerWon | EnemyWon

definition outcome_of :: "battle \<Rightarrow> outcome" where
  "outcome_of b = (if is_alive player (objs b) then PlayerWon else EnemyWon)"

text \<open>\<^verbatim>\<open>main\<close>: create the two characters, set \<^verbatim>\<open>turn = 1\<close>, run the loop.\<close>

definition main_start :: battle where
  "main_start = \<lparr>objs = main_objs, turn = 1, events = []\<rparr>"

definition main :: "(action \<times> int) list \<Rightarrow> run" where
  "main ins = battle_loop ins main_start"

section \<open>Properties of the combatant\<close>

lemma attack_result: "fst (attack a t s) = ap (s a)"
  by (simp add: attack_def Let_def)

lemma attack_target_hp:
  "hp (snd (attack a t s) t) = max 0 (hp (s t) - ap (s a))"
  by (simp add: attack_def Let_def)

lemma attack_other: "r \<noteq> t \<Longrightarrow> snd (attack a t s) r = s r"
  by (simp add: attack_def Let_def)

lemma attack_fields:
  "name (snd (attack a t s) r) = name (s r)"
  "max_hp (snd (attack a t s) r) = max_hp (s r)"
  "ap (snd (attack a t s) r) = ap (s r)"
  by (simp_all add: attack_def Let_def)

lemma heal_fields:
  "name (snd (heal d c s) r) = name (s r)"
  "max_hp (snd (heal d c s) r) = max_hp (s r)"
  "ap (snd (heal d c s) r) = ap (s r)"
  by (simp_all add: heal_def Let_def)

lemma heal_self_hp: "hp (snd (heal d c s) c) = min (max_hp (s c)) (hp (s c) + d)"
  by (simp add: heal_def Let_def)

lemma heal_other: "r \<noteq> c \<Longrightarrow> snd (heal d c s) r = s r"
  by (simp add: heal_def Let_def)

text \<open>
  C1. For every attacker \<open>a\<close> and target \<open>t\<close> (the same object or not),
  \<^verbatim>\<open>a.attack(t)\<close> returns exactly the attacker's attack power; the target's health
  afterwards is \<open>max 0 (prior - attack power)\<close>, which is the prior health less
  \<open>min (attack power) prior\<close>, and it is never negative. Attacking a target at 0 health
  leaves it at 0 and still returns the attack power.
\<close>

theorem C1_attack:
  "fst (attack a t s) = ap (s a)
   \<and> hp (snd (attack a t s) t) = max 0 (hp (s t) - ap (s a))
   \<and> hp (snd (attack a t s) t) = hp (s t) - min (ap (s a)) (hp (s t))
   \<and> 0 \<le> hp (snd (attack a t s) t)
   \<and> (hp (s t) = 0 \<and> 0 \<le> ap (s a) \<longrightarrow>
        hp (snd (attack a t s) t) = 0 \<and> fst (attack a t s) = ap (s a))"
  by (auto simp: attack_def Let_def)


theorem C1_attack_witness:
  "hp ((main_objs(enemy := (main_objs enemy)\<lparr>hp := 0\<rparr>)) enemy) = 0
   \<and> 0 \<le> ap ((main_objs(enemy := (main_objs enemy)\<lparr>hp := 0\<rparr>)) player)
   \<and> hp (snd (attack player enemy (main_objs(enemy := (main_objs enemy)\<lparr>hp := 0\<rparr>))) enemy) = 0
   \<and> fst (attack player enemy (main_objs(enemy := (main_objs enemy)\<lparr>hp := 0\<rparr>))) = 15"
  using C1_attack [of player enemy "main_objs(enemy := (main_objs enemy)\<lparr>hp := 0\<rparr>)"]
  by (simp add: Character_init_def)

text \<open>
  C2. For every combatant and every draw \<open>d\<close> that \<^verbatim>\<open>randint(10, 20)\<close> can
  return, \<^verbatim>\<open>heal()\<close> sets the health to \<open>min max_hp (prior + d)\<close> and returns
  \<open>d\<close> itself. With the draw 15 the fixture's player (100 maximum) goes from 50 to 65
  and from 95 to 100, the returned amount being 15 both times; healing at full health
  leaves the object as it was and returns the draw, which is not zero.
\<close>

theorem C2_heal:
  "d \<in> randint_range \<longrightarrow>
     fst (heal d c s) = d
     \<and> hp (snd (heal d c s) c) = min (max_hp (s c)) (hp (s c) + d)
     \<and> (hp (s c) = max_hp (s c) \<longrightarrow> snd (heal d c s) = s \<and> fst (heal d c s) \<noteq> 0)
     \<and> (d = 15 \<longrightarrow>
          hp (snd (heal d player (main_objs(player := (main_objs player)\<lparr>hp := 50\<rparr>))) player) = 65
          \<and> max_hp (snd (heal d player (main_objs(player := (main_objs player)\<lparr>hp := 50\<rparr>))) player) = 100
          \<and> hp (snd (heal d player (main_objs(player := (main_objs player)\<lparr>hp := 95\<rparr>))) player) = 100
          \<and> fst (heal d player (main_objs(player := (main_objs player)\<lparr>hp := 95\<rparr>))) = 15)"
proof (intro impI conjI)
  assume d: "d \<in> randint_range"
  show "fst (heal d c s) = d"
    by (simp add: heal_def Let_def)
  show "hp (snd (heal d c s) c) = min (max_hp (s c)) (hp (s c) + d)"
    by (rule heal_self_hp)
  {
    assume full: "hp (s c) = max_hp (s c)"
    from d have "0 \<le> d" by (simp add: randint_range_def)
    with full have "min (max_hp (s c)) (hp (s c) + d) = hp (s c)" by simp
    then show "snd (heal d c s) = s" by (simp add: heal_def Let_def)
    from d show "fst (heal d c s) \<noteq> 0" by (simp add: heal_def Let_def randint_range_def)
  }
  {
    assume "d = 15"
    then show "hp (snd (heal d player (main_objs(player := (main_objs player)\<lparr>hp := 50\<rparr>))) player) = 65"
      and "max_hp (snd (heal d player (main_objs(player := (main_objs player)\<lparr>hp := 50\<rparr>))) player) = 100"
      and "hp (snd (heal d player (main_objs(player := (main_objs player)\<lparr>hp := 95\<rparr>))) player) = 100"
      and "fst (heal d player (main_objs(player := (main_objs player)\<lparr>hp := 95\<rparr>))) = 15"
      by (simp_all add: heal_def Let_def Character_init_def)
  }
qed

theorem C2_heal_witness:
  "(15::int) \<in> randint_range
   \<and> hp (main_objs player) = max_hp (main_objs player)
   \<and> fst (heal 15 player main_objs) = 15
   \<and> hp (snd (heal 15 player main_objs) player) = 100
   \<and> snd (heal 15 player main_objs) = main_objs
   \<and> hp (snd (heal 15 player (main_objs(player := (main_objs player)\<lparr>hp := 50\<rparr>))) player) = 65
   \<and> hp (snd (heal 15 player (main_objs(player := (main_objs player)\<lparr>hp := 95\<rparr>))) player) = 100
   \<and> fst (heal 15 player (main_objs(player := (main_objs player)\<lparr>hp := 95\<rparr>))) = 15"
  using C2_heal [of 15 player main_objs]
  by (simp add: randint_range_def Character_init_def)

subsection \<open>The health invariant\<close>

lemma apply_call_fields:
  "max_hp (apply_call k s r) = max_hp (s r)"
  "ap (apply_call k s r) = ap (s r)"
  "name (apply_call k s r) = name (s r)"
  by (cases k; simp add: attack_fields heal_fields)+

lemma call_ok_apply_call: "call_ok (apply_call k s) k' = call_ok s k'"
  by (cases k') (simp_all add: apply_call_fields)

lemma apply_call_inv:
  assumes "call_ok s k" and "0 \<le> hp (s r)" and "hp (s r) \<le> max_hp (s r)"
  shows "0 \<le> hp (apply_call k s r) \<and> hp (apply_call k s r) \<le> max_hp (apply_call k s r)"
proof (cases k)
  case (AttackCall a t)
  with assms show ?thesis
    by (cases "r = t") (auto simp: attack_def Let_def)
next
  case (HealCall c d)
  with assms show ?thesis
    by (cases "r = c") (auto simp: heal_def Let_def randint_range_def)
qed

lemma apply_calls_inv:
  assumes "\<forall>k \<in> set ks. call_ok s k" and "0 \<le> hp (s r)" and "hp (s r) \<le> max_hp (s r)"
  shows "0 \<le> hp (apply_calls ks s r) \<and> hp (apply_calls ks s r) \<le> max_hp (apply_calls ks s r)
         \<and> max_hp (apply_calls ks s r) = max_hp (s r)"
  using assms
proof (induction ks arbitrary: s)
  case Nil
  then show ?case by simp
next
  case (Cons k ks)
  have ok: "\<forall>k' \<in> set ks. call_ok (apply_call k s) k'"
    using Cons.prems(1) by (simp add: call_ok_apply_call)
  have inv: "0 \<le> hp (apply_call k s r) \<and> hp (apply_call k s r) \<le> max_hp (apply_call k s r)"
    using Cons.prems by (intro apply_call_inv) simp_all
  from Cons.IH [OF ok] inv show ?case
    by (simp add: apply_call_fields)
qed

text \<open>
  C3. Let a combatant \<open>c\<close> be created with positive maximum health \<open>h\<close>, so that its
  health starts at \<open>h\<close>. After any finite sequence of \<^verbatim>\<open>attack\<close> and
  \<^verbatim>\<open>heal\<close> calls on the objects of the store, in any order, by attackers whose
  attack power is not negative and with draws that \<^verbatim>\<open>randint(10, 20)\<close> can
  return, its health lies between 0 and its maximum health, which is still \<open>h\<close>.
\<close>

theorem C3_health_invariant:
  assumes "0 < h" and "s c = Character_init n h a" and "\<forall>k \<in> set ks. call_ok s k"
  shows "0 \<le> hp (apply_calls ks s c) \<and> hp (apply_calls ks s c) \<le> max_hp (apply_calls ks s c)
         \<and> max_hp (apply_calls ks s c) = h"
proof -
  from assms(1,2) have "0 \<le> hp (s c)" and "hp (s c) \<le> max_hp (s c)" and "max_hp (s c) = h"
    by (simp_all add: Character_init_def)
  with apply_calls_inv [OF assms(3), of c] show ?thesis by simp
qed

theorem C3_health_invariant_witness:
  "(0::int) < 100
   \<and> main_objs player = Character_init [12354, 12394, 12383] 100 15
   \<and> call_ok main_objs (HealCall player 20)
   \<and> call_ok main_objs (AttackCall enemy player)
   \<and> call_ok main_objs (AttackCall player player)
   \<and> call_ok main_objs (HealCall player 12)
   \<and> call_ok main_objs (AttackCall player enemy)
   \<and> hp (apply_calls [HealCall player 20, AttackCall enemy player, AttackCall player player,
                  HealCall player 12, AttackCall player enemy] main_objs player) = 87
   \<and> max_hp (apply_calls [HealCall player 20, AttackCall enemy player, AttackCall player player,
                  HealCall player 12, AttackCall player enemy] main_objs player) = 100"
  using C3_health_invariant [of 100 main_objs player "[12354, 12394, 12383]" 15
    "[HealCall player 20, AttackCall enemy player, AttackCall player player,
      HealCall player 12, AttackCall player enemy]"]
  by (simp add: Character_init_def randint_range_def attack_def heal_def Let_def)

text \<open>
  C8. \<^verbatim>\<open>is_alive()\<close> is true if and only if the health is greater than 0. After an
  attack the target is dead exactly when its health has been driven to 0, which is
  exactly when its prior health did not exceed the attacker's attack power.
\<close>

theorem C8_is_alive:
  "is_alive c s = (0 < hp (s c))
   \<and> is_alive t (snd (attack a t s)) = (hp (snd (attack a t s) t) \<noteq> 0)
   \<and> is_alive t (snd (attack a t s)) = (ap (s a) < hp (s t))"
  by (auto simp: is_alive_def attack_def Let_def)

text \<open>
  C9, as stated, fails when a character attacks itself: the attacker is then the target
  and loses health. The player of \<^verbatim>\<open>main\<close> has 100 health and attack power 15;
  after \<^verbatim>\<open>player.attack(player)\<close> it has 85.
\<close>

theorem C9_self_attack_counterexample:
  "hp (main_objs player) = 100
   \<and> hp (snd (attack player player main_objs) player) = 85
   \<and> snd (attack player player main_objs) player \<noteq> main_objs player"
proof -
  have a: "hp (main_objs player) = 100"
    by (simp add: Character_init_def)
  have b: "hp (snd (attack player player main_objs) player) = 85"
    by (simp add: attack_def Let_def Character_init_def)
  from a b have "hp (snd (attack player player main_objs) player) \<noteq> hp (main_objs player)"
    by simp
  then have "snd (attack player player main_objs) player \<noteq> main_objs player"
    by metis
  with a b show ?thesis by simp
qed

text \<open>
  C9, amended. \<^verbatim>\<open>attack\<close> never changes the name, the maximum health or the attack
  power of any object; when the target is another object than the attacker, the attacker
  is left exactly as it was, health included, and so is every object other than the
  target. The call is deterministic: its result and the target's new state depend only
  on the states of the attacker and of the target. A character that attacks itself is
  its own target and loses health like any target.
\<close>

theorem C9_attack_frame:
  "name (snd (attack a t s) a) = name (s a)
   \<and> max_hp (snd (attack a t s) a) = max_hp (s a)
   \<and> ap (snd (attack a t s) a) = ap (s a)
   \<and> (a \<noteq> t \<longrightarrow> snd (attack a t s) a = s a)
   \<and> (r \<noteq> t \<longrightarrow> snd (attack a t s) r = s r)
   \<and> (s a = s' a \<and> s t = s' t \<longrightarrow>
        fst (attack a t s) = fst (attack a t s')
        \<and> snd (attack a t s) t = snd (attack a t s') t)
   \<and> hp (snd (attack a a s) a) = max 0 (hp (s a) - ap (s a))"
  by (simp add: attack_def Let_def)

theorem C9_attack_frame_witness:
  "player \<noteq> enemy
   \<and> snd (attack player enemy main_objs) player = main_objs player
   \<and> main_objs player = (main_objs(enemy := (main_objs enemy)\<lparr>hp := 80\<rparr>)) player
   \<and> main_objs enemy = (main_objs(enemy := (main_objs enemy)\<lparr>hp := 80\<rparr>)) enemy
   \<and> fst (attack player enemy main_objs) = 15
   \<and> hp (snd (attack player enemy main_objs) enemy) = 65"
  using C9_attack_frame [of player enemy main_objs player "main_objs(enemy := (main_objs enemy)\<lparr>hp := 80\<rparr>)"]
  by (simp add: attack_def Let_def Character_init_def)

text \<open>
  C10. The constructor takes one health value and stores it as both the current and the
  maximum health: a new character is at full health, and it is alive when that value is
  positive.
\<close>

theorem C10_constructor:
  "hp (Character_init n h a) = h
   \<and> max_hp (Character_init n h a) = h
   \<and> hp (Character_init n h a) = max_hp (Character_init n h a)
   \<and> name (Character_init n h a) = n
   \<and> ap (Character_init n h a) = a
   \<and> (0 < h \<longrightarrow> is_alive c (s(c := Character_init n h a)))"
  by (simp add: Character_init_def is_alive_def)

theorem C10_constructor_witness:
  "(0::int) < 100
   \<and> is_alive player main_objs
   \<and> hp (main_objs player) = max_hp (main_objs player)"
  using C10_constructor [of "[12354, 12394, 12383]" 100 15 player main_objs]
  by (simp add: Character_init_def is_alive_def)

section \<open>Properties of the battle loop\<close>

lemma player_acts_Attack:
  "objs (player_acts Attack d b) = snd (attack player enemy (objs b))"
  "events (player_acts Attack d b) = events b @ [PlayerAttacked (ap (objs b player))]"
  by (simp_all add: player_acts_def attack_def Let_def)

lemma player_acts_Heal:
  "objs (player_acts Heal d b) = snd (heal d player (objs b))"
  "events (player_acts Heal d b) = events b @ [PlayerHealed d]"
  by (simp_all add: player_acts_def heal_def Let_def)

lemma player_acts_turn: "turn (player_acts act d b) = turn b"
  by (cases act) (simp_all add: player_acts_def attack_def heal_def Let_def)

lemma enemy_acts_simps:
  "objs (enemy_acts b) = snd (attack enemy player (objs b))"
  "events (enemy_acts b) = events b @ [EnemyAttacked (ap (objs b enemy))]"
  "turn (enemy_acts b) = turn b"
  by (simp_all add: enemy_acts_def attack_def Let_def)

lemma player_acts_enemy_ap: "ap (objs (player_acts act d b) enemy) = ap (objs b enemy)"
  by (cases act) (simp_all add: player_acts_Attack player_acts_Heal attack_fields heal_fields)

lemma player_survives_own_action:
  assumes "is_alive player (objs b)" and "0 < max_hp (objs b player)" and "d \<in> randint_range"
  shows "is_alive player (objs (player_acts act d b))"
proof (cases act)
  case Attack
  with assms(1) show ?thesis
    by (simp add: player_acts_Attack is_alive_def attack_other)
next
  case Heal
  with assms show ?thesis
    by (simp add: player_acts_Heal is_alive_def heal_self_hp randint_range_def)
qed

lemma heal_keeps_enemy: "objs (player_acts Heal d b) enemy = objs b enemy"
  by (simp add: player_acts_Heal heal_other)

lemma attack_keeps_player: "objs (player_acts Attack d b) player = objs b player"
  by (simp add: player_acts_Attack attack_other)

lemma battle_loop_over: 
  "\<not> (is_alive player (objs b) \<and> is_alive enemy (objs b)) \<Longrightarrow> battle_loop ins b = Ended b"
  by (cases ins) auto

lemma battle_loop_Ended:
  "battle_loop ins b = Ended b' \<Longrightarrow>
     \<not> (is_alive player (objs b') \<and> is_alive enemy (objs b')) \<and> battle_loop (ins @ later) b = Ended b'"
proof (induction ins b rule: battle_loop.induct)
  case (1 b)
  then show ?case
    by (auto split: if_splits simp: battle_loop_over)
next
  case (2 act d rest b)
  show ?case
  proof (cases "is_alive player (objs b) \<and> is_alive enemy (objs b)")
    case False
    with "2.prems" show ?thesis by auto
  next
    case alive: True
    show ?thesis
    proof (cases "is_alive enemy (objs (player_acts act d b))")
      case False
      with alive "2.prems" show ?thesis by (auto simp: Let_def)
    next
      case True
      with alive "2.prems" "2.IH" [OF alive refl _ refl] show ?thesis
        by (simp add: Let_def)
    qed
  qed
qed

text \<open>
  C4. A round starts with both characters alive (the loop condition). Let \<open>b1\<close> be
  the state after the player's chosen action and \<open>b2\<close> the state after the enemy's
  attack on top of it.
  \<^item> The player's action is applied first and narrated once; the player is still alive
    after it (the player's maximum health is positive and the draw is one
    \<^verbatim>\<open>randint(10, 20)\<close> returns).
  \<^item> If the enemy is then not alive, the loop ends in \<open>b1\<close> with the player as winner:
    the enemy has not acted, the player is as it was before the round, the turn counter
    is unchanged.
  \<^item> Otherwise the enemy attacks the player exactly once: the player's health drops by
    the enemy's attack power, floored at 0, and the enemy itself is unchanged. If the
    player is then not alive the loop ends with the enemy as winner; else the turn counter
    is one more and the loop is at the head of the next round with both alive. (The
    counter is incremented before the loop condition is tested again, so the final state
    of a lost battle has it incremented too; nothing reads it after the loop.)
  \<^item> With a character at 0 health the loop does nothing at all, and once it has ended
    (which happens only with a character dead) no further choice has any effect.
\<close>

theorem C4_round:
  "(is_alive player (objs b) \<and> is_alive enemy (objs b)
      \<and> 0 < max_hp (objs b player) \<and> d \<in> randint_range \<longrightarrow>
     (let b1 = player_acts act d b;
          b2 = enemy_acts b1;
          b3 = b2\<lparr>turn := turn b + 1\<rparr>
      in events b1 = events b @
           [case act of Attack \<Rightarrow> PlayerAttacked (ap (objs b player)) | Heal \<Rightarrow> PlayerHealed d]
         \<and> objs b1 = (case act of Attack \<Rightarrow> snd (attack player enemy (objs b))
                                 | Heal \<Rightarrow> snd (heal d player (objs b)))
         \<and> is_alive player (objs b1)
         \<and> (\<not> is_alive enemy (objs b1) \<longrightarrow>
              battle_loop ((act, d) # rest) b = Ended b1
              \<and> outcome_of b1 = PlayerWon
              \<and> act = Attack
              \<and> objs b1 player = objs b player
              \<and> turn b1 = turn b)
         \<and> (is_alive enemy (objs b1) \<longrightarrow>
              events b2 = events b1 @ [EnemyAttacked (ap (objs b enemy))]
              \<and> hp (objs b2 player) = max 0 (hp (objs b1 player) - ap (objs b enemy))
              \<and> objs b2 enemy = objs b1 enemy
              \<and> (\<not> is_alive player (objs b2) \<longrightarrow>
                   battle_loop ((act, d) # rest) b = Ended b3
                   \<and> outcome_of b3 = EnemyWon)
              \<and> (is_alive player (objs b2) \<longrightarrow>
                   battle_loop ((act, d) # rest) b = battle_loop rest b3
                   \<and> is_alive player (objs b3) \<and> is_alive enemy (objs b3)
                   \<and> turn b3 = turn b + 1))))
   \<and> (\<not> (is_alive player (objs b) \<and> is_alive enemy (objs b)) \<longrightarrow> battle_loop ins b = Ended b)
   \<and> (battle_loop ins b = Ended b' \<longrightarrow>
        \<not> (is_alive player (objs b') \<and> is_alive enemy (objs b'))
        \<and> battle_loop (ins @ later) b = Ended b')"
proof (intro conjI impI)
  show "battle_loop ins b = Ended b"
    if "\<not> (is_alive player (objs b) \<and> is_alive enemy (objs b))"
    using that by (rule battle_loop_over)
  show "\<not> (is_alive player (objs b') \<and> is_alive enemy (objs b'))"
    if "battle_loop ins b = Ended b'"
    using battle_loop_Ended [OF that] by simp
  show "battle_loop (ins @ later) b = Ended b'"
    if "battle_loop ins b = Ended b'"
    using battle_loop_Ended [OF that] by simp
  assume pre: "is_alive player (objs b) \<and> is_alive enemy (objs b)
      \<and> 0 < max_hp (objs b player) \<and> d \<in> randint_range"
  define b1 where "b1 = player_acts act d b"
  define b2 where "b2 = enemy_acts b1"
  define b3 where "b3 = b2\<lparr>turn := turn b + 1\<rparr>"
  have t1: "turn b1 = turn b"
    by (simp add: b1_def player_acts_turn)
  have loop: "battle_loop ((act, d) # rest) b =
      (if \<not> is_alive enemy (objs b1) then Ended b1 else battle_loop rest b3)"
    using pre by (simp add: b1_def b2_def b3_def Let_def enemy_acts_simps player_acts_turn)
  have ev1: "events b1 = events b @
      [case act of Attack \<Rightarrow> PlayerAttacked (ap (objs b player)) | Heal \<Rightarrow> PlayerHealed d]"
    by (cases act) (simp_all add: b1_def player_acts_Attack player_acts_Heal)
  have ob1: "objs b1 = (case act of Attack \<Rightarrow> snd (attack player enemy (objs b))
                                 | Heal \<Rightarrow> snd (heal d player (objs b)))"
    by (cases act) (simp_all add: b1_def player_acts_Attack player_acts_Heal)
  have p1: "is_alive player (objs b1)"
    unfolding b1_def using pre by (intro player_survives_own_action) simp_all
  have won: "outcome_of b1 = PlayerWon \<and> act = Attack \<and> objs b1 player = objs b player"
    if "\<not> is_alive enemy (objs b1)"
  proof -
    have "act = Attack"
    proof (cases act)
      case Heal
      with that pre show ?thesis
        by (simp add: b1_def is_alive_def heal_keeps_enemy)
    qed
    with p1 show ?thesis
      by (simp add: outcome_of_def b1_def attack_keeps_player)
  qed
  have ev2: "events b2 = events b1 @ [EnemyAttacked (ap (objs b enemy))]"
    by (simp add: b2_def enemy_acts_simps b1_def player_acts_enemy_ap)
  have hp2: "hp (objs b2 player) = max 0 (hp (objs b1 player) - ap (objs b enemy))"
    by (simp add: b2_def enemy_acts_simps attack_target_hp b1_def player_acts_enemy_ap)
  have en2: "objs b2 enemy = objs b1 enemy"
    by (simp add: b2_def enemy_acts_simps attack_other)
  have ob3: "objs b3 = objs b2" and t3: "turn b3 = turn b + 1"
    by (simp_all add: b3_def)
  have lost: "battle_loop ((act, d) # rest) b = Ended b3 \<and> outcome_of b3 = EnemyWon"
    if "is_alive enemy (objs b1)" and "\<not> is_alive player (objs b2)"
    using that loop by (simp add: battle_loop_over ob3 outcome_of_def)
  have cont: "battle_loop ((act, d) # rest) b = battle_loop rest b3
      \<and> is_alive player (objs b3) \<and> is_alive enemy (objs b3) \<and> turn b3 = turn b + 1"
    if "is_alive enemy (objs b1)" and "is_alive player (objs b2)"
    using that loop by (simp add: ob3 t3 is_alive_def en2)
  show "let b1 = player_acts act d b;
          b2 = enemy_acts b1;
          b3 = b2\<lparr>turn := turn b + 1\<rparr>
      in events b1 = events b @
           [case act of Attack \<Rightarrow> PlayerAttacked (ap (objs b player)) | Heal \<Rightarrow> PlayerHealed d]
         \<and> objs b1 = (case act of Attack \<Rightarrow> snd (attack player enemy (objs b))
                                 | Heal \<Rightarrow> snd (heal d player (objs b)))
         \<and> is_alive player (objs b1)
         \<and> (\<not> is_alive enemy (objs b1) \<longrightarrow>
              battle_loop ((act, d) # rest) b = Ended b1
              \<and> outcome_of b1 = PlayerWon
              \<and> act = Attack
              \<and> objs b1 player = objs b player
              \<and> turn b1 = turn b)
         \<and> (is_alive enemy (objs b1) \<longrightarrow>
              events b2 = events b1 @ [EnemyAttacked (ap (objs b enemy))]
              \<and> hp (objs b2 player) = max 0 (hp (objs b1 player) - ap (objs b enemy))
              \<and> objs b2 enemy = objs b1 enemy
              \<and> (\<not> is_alive player (objs b2) \<longrightarrow>
                   battle_loop ((act, d) # rest) b = Ended b3
                   \<and> outcome_of b3 = EnemyWon)
              \<and> (is_alive player (objs b2) \<longrightarrow>
                   battle_loop ((act, d) # rest) b = battle_loop rest b3
                   \<and> is_alive player (objs b3) \<and> is_alive enemy (objs b3)
                   \<and> turn b3 = turn b + 1))"
    unfolding Let_def b1_def [symmetric] b2_def [symmetric] b3_def [symmetric]
    using ev1 ob1 p1 won loop t1 ev2 hp2 en2 lost cont by simp
qed

theorem C4_round_witness:
  "is_alive player (objs main_start) \<and> is_alive enemy (objs main_start)
   \<and> 0 < max_hp (objs main_start player) \<and> (12::int) \<in> randint_range
   \<and> battle_loop [(Attack, 12)] main_start
       = Waiting ((enemy_acts (player_acts Attack 12 main_start))\<lparr>turn := 2\<rparr>)
   \<and> hp (objs (enemy_acts (player_acts Attack 12 main_start)) player) = 90
   \<and> hp (objs (enemy_acts (player_acts Attack 12 main_start)) enemy) = 65
   \<and> \<not> is_alive enemy
         (objs (player_acts Attack 12 (main_start\<lparr>objs := main_objs(enemy := (main_objs enemy)\<lparr>hp := 5\<rparr>)\<rparr>)))
   \<and> battle_loop [(Attack, 12), (Heal, 12)]
         (main_start\<lparr>objs := main_objs(enemy := (main_objs enemy)\<lparr>hp := 5\<rparr>)\<rparr>)
       = Ended (player_acts Attack 12 (main_start\<lparr>objs := main_objs(enemy := (main_objs enemy)\<lparr>hp := 5\<rparr>)\<rparr>))
   \<and> outcome_of (player_acts Attack 12 (main_start\<lparr>objs := main_objs(enemy := (main_objs enemy)\<lparr>hp := 5\<rparr>)\<rparr>))
       = PlayerWon
   \<and> events (player_acts Attack 12 (main_start\<lparr>objs := main_objs(enemy := (main_objs enemy)\<lparr>hp := 5\<rparr>)\<rparr>))
       = [PlayerAttacked 15]
   \<and> \<not> is_alive player
         (objs (enemy_acts (player_acts Attack 12 (main_start\<lparr>objs := main_objs(player := (main_objs player)\<lparr>hp := 10\<rparr>)\<rparr>))))
   \<and> outcome_of
         (state_of (battle_loop [(Attack, 12), (Heal, 12)]
            (main_start\<lparr>objs := main_objs(player := (main_objs player)\<lparr>hp := 10\<rparr>)\<rparr>)))
       = EnemyWon
   \<and> battle_loop [(Attack, 12)] (main_start\<lparr>objs := main_objs(player := (main_objs player)\<lparr>hp := 0\<rparr>)\<rparr>)
       = Ended (main_start\<lparr>objs := main_objs(player := (main_objs player)\<lparr>hp := 0\<rparr>)\<rparr>)"
  using
    C4_round [where b = main_start and d = 12 and act = Attack and rest = "[]" and ins = "[]"
      and later = "[]"]
    C4_round [where b = "main_start\<lparr>objs := main_objs(enemy := (main_objs enemy)\<lparr>hp := 5\<rparr>)\<rparr>"
      and d = 12 and act = Attack and rest = "[(Heal, 12)]" and ins = "[]" and later = "[]"]
    C4_round [where b = "main_start\<lparr>objs := main_objs(player := (main_objs player)\<lparr>hp := 10\<rparr>)\<rparr>"
      and d = 12 and act = Attack and rest = "[(Heal, 12)]" and ins = "[]" and later = "[]"]
    C4_round [where b = "main_start\<lparr>objs := main_objs(player := (main_objs player)\<lparr>hp := 0\<rparr>)\<rparr>"
      and d = 12 and act = Attack and rest = "[]" and ins = "[(Attack, 12)]" and later = "[]"]
  by (simp add: main_start_def Character_init_def is_alive_def randint_range_def
      player_acts_def enemy_acts_def attack_def heal_def outcome_of_def Let_def)

text \<open>
  C5, as stated, fails in its first figure: the player's attack power is 15, so the
  enemy's health after round 1 is 80 - 15 = 65, not 70.
\<close>

theorem C5_round_one_counterexample:
  "hp (objs (state_of (main [(Attack, 10)])) enemy) = 65
   \<and> hp (objs (state_of (main [(Attack, 10)])) enemy) \<noteq> 70"
  by (simp add: main_def main_start_def Character_init_def is_alive_def
      player_acts_def enemy_acts_def attack_def Let_def)

text \<open>
  C5, amended. With the characters of \<^verbatim>\<open>main\<close> (player 100 health and attack
  power 15, enemy 80 health and attack power 10) and the player always choosing Attack:
  after round 1 the loop is still running, the enemy has health 65 and the player 90;
  the loop is still running after each of the first five rounds; the sixth choice ends
  the battle, whatever is offered afterwards, with the victory of the player: the enemy
  is at 0, the player at 50, the turn counter at 6, and the enemy has attacked five
  times.
\<close>

theorem C5_scenario:
  "\<not> has_ended (main [(Attack, d1)])
   \<and> hp (objs (state_of (main [(Attack, d1)])) enemy) = 65
   \<and> hp (objs (state_of (main [(Attack, d1)])) player) = 90
   \<and> turn (state_of (main [(Attack, d1)])) = 2
   \<and> \<not> has_ended (main [(Attack, d1), (Attack, d2), (Attack, d3), (Attack, d4), (Attack, d5)])
   \<and> hp (objs (state_of (main [(Attack, d1), (Attack, d2), (Attack, d3), (Attack, d4),
        (Attack, d5)])) enemy) = 5
   \<and> hp (objs (state_of (main [(Attack, d1), (Attack, d2), (Attack, d3), (Attack, d4),
        (Attack, d5)])) player) = 50
   \<and> has_ended (main ((Attack, d1) # (Attack, d2) # (Attack, d3) # (Attack, d4) # (Attack, d5)
        # (Attack, d6) # later))
   \<and> outcome_of (state_of (main ((Attack, d1) # (Attack, d2) # (Attack, d3) # (Attack, d4)
        # (Attack, d5) # (Attack, d6) # later))) = PlayerWon
   \<and> hp (objs (state_of (main ((Attack, d1) # (Attack, d2) # (Attack, d3) # (Attack, d4)
        # (Attack, d5) # (Attack, d6) # later))) enemy) = 0
   \<and> hp (objs (state_of (main ((Attack, d1) # (Attack, d2) # (Attack, d3) # (Attack, d4)
        # (Attack, d5) # (Attack, d6) # later))) player) = 50
   \<and> turn (state_of (main ((Attack, d1) # (Attack, d2) # (Attack, d3) # (Attack, d4)
        # (Attack, d5) # (Attack, d6) # later))) = 6
   \<and> events (state_of (main ((Attack, d1) # (Attack, d2) # (Attack, d3) # (Attack, d4)
        # (Attack, d5) # (Attack, d6) # later)))
       = [PlayerAttacked 15, EnemyAttacked 10, PlayerAttacked 15, EnemyAttacked 10,
          PlayerAttacked 15, EnemyAttacked 10, PlayerAttacked 15, EnemyAttacked 10,
          PlayerAttacked 15, EnemyAttacked 10, PlayerAttacked 15]"
proof -
  have one: "main [(Attack, d1)] = Waiting
      \<lparr>objs = main_objs(enemy := (main_objs enemy)\<lparr>hp := 65\<rparr>,
                        player := (main_objs player)\<lparr>hp := 90\<rparr>),
       turn = 2, events = [PlayerAttacked 15, EnemyAttacked 10]\<rparr>"
    by (simp add: main_def main_start_def Character_init_def is_alive_def
        player_acts_def enemy_acts_def attack_def Let_def)
  have five: "main [(Attack, d1), (Attack, d2), (Attack, d3), (Attack, d4), (Attack, d5)] = Waiting
      \<lparr>objs = main_objs(enemy := (main_objs enemy)\<lparr>hp := 5\<rparr>,
                        player := (main_objs player)\<lparr>hp := 50\<rparr>),
       turn = 6,
       events = [PlayerAttacked 15, EnemyAttacked 10, PlayerAttacked 15, EnemyAttacked 10,
          PlayerAttacked 15, EnemyAttacked 10, PlayerAttacked 15, EnemyAttacked 10,
          PlayerAttacked 15, EnemyAttacked 10]\<rparr>"
    by (simp add: main_def main_start_def Character_init_def is_alive_def
        player_acts_def enemy_acts_def attack_def Let_def)
  have six: "main ((Attack, d1) # (Attack, d2) # (Attack, d3) # (Attack, d4) # (Attack, d5)
        # (Attack, d6) # later) = Ended
      \<lparr>objs = main_objs(player := (main_objs player)\<lparr>hp := 50\<rparr>,
                        enemy := (main_objs enemy)\<lparr>hp := 0\<rparr>),
       turn = 6,
       events = [PlayerAttacked 15, EnemyAttacked 10, PlayerAttacked 15, EnemyAttacked 10,
          PlayerAttacked 15, EnemyAttacked 10, PlayerAttacked 15, EnemyAttacked 10,
          PlayerAttacked 15, EnemyAttacked 10, PlayerAttacked 15]\<rparr>"
    by (simp add: main_def main_start_def Character_init_def is_alive_def
        player_acts_def enemy_acts_def attack_def Let_def)
  show ?thesis
    unfolding one five six
    by (simp add: outcome_of_def is_alive_def Character_init_def)
qed

theorem C5_scenario_witness:
  "has_ended (main [(Attack, 10), (Attack, 10), (Attack, 10), (Attack, 10), (Attack, 10),
      (Attack, 10)])
   \<and> outcome_of (state_of (main [(Attack, 10), (Attack, 10), (Attack, 10), (Attack, 10),
      (Attack, 10), (Attack, 10)])) = PlayerWon
   \<and> hp (objs (state_of (main [(Attack, 10)])) enemy) = 65
   \<and> hp (objs (state_of (main [(Attack, 10)])) player) = 90"
  using C5_scenario [of 10 10 10 10 10 10 "[]"]
  by simp

section \<open>Properties of the float arithmetic\<close>

declare digits.simps [simp del]

lemma rhe_lower:
  assumes "0 < d" and "k * d \<le> n"
  shows "k \<le> round_half_even n d"
proof -
  have "(k * d) div d \<le> n div d"
    using assms by (intro zdiv_mono1) simp_all
  then have "k \<le> n div d"
    using assms by simp
  then show ?thesis
    by (simp add: round_half_even_def Let_def)
qed

lemma rhe_upper:
  assumes "0 < d" and "n \<le> k * d"
  shows "round_half_even n d \<le> k"
proof (cases "n div d < k")
  case True
  then show ?thesis by (simp add: round_half_even_def Let_def)
next
  case False
  have "n div d \<le> (k * d) div d"
    using assms by (intro zdiv_mono1) simp_all
  then have "n div d \<le> k"
    using assms by simp
  with False have q: "n div d = k" by simp
  have "n = (n div d) * d + n mod d" by simp
  with q assms have "n mod d \<le> 0" by (metis add_le_same_cancel1)
  moreover have "0 \<le> n mod d" using assms by simp
  ultimately have "n mod d = 0" by simp
  with q assms show ?thesis by (simp add: round_half_even_def Let_def)
qed

lemma rhe_nonneg: "0 < d \<Longrightarrow> 0 \<le> n \<Longrightarrow> 0 \<le> round_half_even n d"
  using rhe_lower [of d 0 n] by simp

lemma rhe_error:
  assumes "0 < d"
  shows "\<bar>real_of_int (round_half_even n d) - real_of_int n / real_of_int d\<bar> \<le> 1 / 2"
proof -
  define q where "q = n div d"
  define r where "r = n mod d"
  have n: "n = q * d + r" and r: "0 \<le> r" "r < d"
    using assms by (simp_all add: q_def r_def)
  have x: "real_of_int n / real_of_int d = real_of_int q + real_of_int r / real_of_int d"
    using assms by (simp add: n field_simps)
  consider "2 * r < d" | "d < 2 * r" | "2 * r = d" by linarith
  then show ?thesis
  proof cases
    case 1
    then have "round_half_even n d = q" by (simp add: round_half_even_def Let_def q_def r_def)
    moreover have "real_of_int r / real_of_int d \<le> 1 / 2" "0 \<le> real_of_int r / real_of_int d"
      using 1 r assms by (simp_all add: field_simps)
    ultimately show ?thesis using x by simp
  next
    case 2
    then have "round_half_even n d = q + 1" by (simp add: round_half_even_def Let_def q_def r_def)
    moreover have "1 / 2 \<le> real_of_int r / real_of_int d" "real_of_int r / real_of_int d \<le> 1"
      using 2 r assms by (simp_all add: field_simps)
    ultimately show ?thesis using x by simp
  next
    case 3
    then have "round_half_even n d = q \<or> round_half_even n d = q + 1"
      by (simp add: round_half_even_def Let_def q_def r_def)
    moreover have "real_of_int r / real_of_int d = 1 / 2"
    proof -
      from 3 have "real_of_int d = 2 * real_of_int r" by simp
      with assms show ?thesis by simp
    qed
    ultimately show ?thesis using x by auto
  qed
qed


lemma two_powi_nat: "(2::real) powi e = (if 0 \<le> e then 2 ^ nat e else 1 / 2 ^ nat (- e))"
proof (cases "0 \<le> e")
  case True
  then show ?thesis by (simp add: power_int_nonneg_exp)
next
  case False
  then have "(2::real) powi (- (- e)) = 1 / 2 powi (- e)"
    by (simp only: power_int_minus_divide)
  with False show ?thesis by (simp add: power_int_nonneg_exp)
qed

lemma powi_split: "(2::real) ^ a * 2 powi b = 2 powi (int a + b)"
  by (simp add: power_int_add)

lemma scaled_fraction:
  assumes "0 < d"
  shows "real_of_int (n * 2 ^ nat (- e)) / real_of_int (d * 2 ^ nat e)
         = (real_of_int n / real_of_int d) * 2 powi (- e)"
  by (cases "0 \<le> e") (simp_all add: two_powi_nat)

lemma bitlen_powi:
  assumes "0 < n"
  shows "2 powi (bitlen n - 1) \<le> real_of_int n" and "real_of_int n < 2 powi (bitlen n)"
proof -
  from assms have b: "1 \<le> bitlen n"
    using bitlen_eq_zero_iff [of n] bitlen_nonneg [of n] by linarith
  from bitlen_bounds [OF assms] have "real_of_int (2 ^ nat (bitlen n - 1)) \<le> real_of_int n"
    and "real_of_int n < real_of_int (2 ^ nat (bitlen n))"
    by (simp_all only: of_int_le_iff of_int_less_iff)
  with b show "2 powi (bitlen n - 1) \<le> real_of_int n" and "real_of_int n < 2 powi (bitlen n)"
    by (simp_all add: two_powi_nat)
qed

lemma ulp_exponent_spec:
  assumes "0 < n" and "0 < d"
  defines "x \<equiv> real_of_int n / real_of_int d"
  defines "e \<equiv> ulp_exponent n d"
  shows "- 1074 \<le> e"
    and "x < 2 ^ 53 * 2 powi e"
    and "- 1074 < e \<Longrightarrow> 2 ^ 52 * 2 powi e \<le> x"
proof -
  define k where "k = bitlen n - bitlen d"
  define k' where "k' = (if d * 2 ^ nat k \<le> n * 2 ^ nat (- k) then k else k - 1)"
  have e: "e = max (k' - 52) (- 1074)"
    by (simp add: e_def ulp_exponent_def k_def k'_def Let_def)
  then show "- 1074 \<le> e" by simp
  have dpos: "0 < real_of_int d" and npos: "0 < real_of_int n" using assms by simp_all
  have test: "(d * 2 ^ nat k \<le> n * 2 ^ nat (- k)) = (2 powi k \<le> x)"
  proof -
    have "(d * 2 ^ nat k \<le> n * 2 ^ nat (- k))
        = (real_of_int (d * 2 ^ nat k) \<le> real_of_int (n * 2 ^ nat (- k)))"
      by (simp only: of_int_le_iff)
    also have "\<dots> = (2 powi k \<le> x)"
      using dpos by (cases "0 \<le> k") (simp_all add: two_powi_nat x_def field_simps)
    finally show ?thesis .
  qed
  have up: "x < 2 powi (k + 1)"
  proof -
    have "real_of_int n < 2 powi (bitlen n)" by (rule bitlen_powi [OF assms(1)])
    moreover have "2 powi (bitlen d - 1) \<le> real_of_int d" by (rule bitlen_powi [OF assms(2)])
    ultimately have "real_of_int n * 2 powi (bitlen d - 1) < 2 powi (bitlen n) * real_of_int d"
      using npos by (intro mult_less_le_imp_less) simp_all
    then have "x * 2 powi (bitlen d - 1) < 2 powi (bitlen n)"
      using dpos by (simp add: x_def field_simps)
    moreover have "(2::real) powi (bitlen n) = 2 powi (k + 1) * 2 powi (bitlen d - 1)"
      by (simp add: k_def flip: power_int_add)
    ultimately show ?thesis by simp
  qed
  have low: "2 powi (k - 1) \<le> x"
  proof -
    have "2 powi (bitlen n - 1) \<le> real_of_int n" by (rule bitlen_powi [OF assms(1)])
    moreover have "real_of_int d < 2 powi (bitlen d)" by (rule bitlen_powi [OF assms(2)])
    ultimately have "2 powi (bitlen n - 1) * real_of_int d \<le> real_of_int n * 2 powi (bitlen d)"
      using dpos npos by (intro mult_mono) simp_all
    then have "2 powi (bitlen n - 1) \<le> x * 2 powi (bitlen d)"
      using dpos by (simp add: x_def field_simps)
    moreover have "(2::real) powi (bitlen n - 1) = 2 powi (k - 1) * 2 powi (bitlen d)"
      by (simp add: k_def flip: power_int_add)
    ultimately show ?thesis by simp
  qed
  have k'low: "2 powi k' \<le> x" and k'up: "x < 2 powi (k' + 1)"
  proof -
    show "2 powi k' \<le> x"
      using low test by (simp add: k'_def)
    show "x < 2 powi (k' + 1)"
      using up test by (simp add: k'_def)
  qed
  have split: "(2::real) ^ 53 * 2 powi (k' - 52) = 2 powi (k' + 1)"
    "(2::real) ^ 52 * 2 powi (k' - 52) = 2 powi k'"
    using powi_split [of 53 "k' - 52"] powi_split [of 52 "k' - 52"]
    by (simp_all add: add.commute)
  have "(2::real) powi (k' - 52) \<le> 2 powi e"
    using e by (intro power_int_increasing) simp_all
  then have "(2::real) ^ 53 * 2 powi (k' - 52) \<le> 2 ^ 53 * 2 powi e"
    by simp
  with k'up split show "x < 2 ^ 53 * 2 powi e" by simp
  show "2 ^ 52 * 2 powi e \<le> x" if "- 1074 < e"
  proof -
    from that e have "e = k' - 52" by simp
    with split k'low show ?thesis by simp
  qed
qed

lemma round_to_double_snd: "snd (round_to_double n d) = ulp_exponent n d"
  by (simp add: round_to_double_def Let_def)

lemma round_to_double_fst:
  "fst (round_to_double n d)
   = round_half_even (n * 2 ^ nat (- ulp_exponent n d)) (d * 2 ^ nat (ulp_exponent n d))"
  by (simp add: round_to_double_def Let_def)

lemma round_to_double_ge:
  assumes "0 < d" and "real_of_int K \<le> (real_of_int n / real_of_int d) * 2 powi (- ulp_exponent n d)"
  shows "K \<le> fst (round_to_double n d)"
proof -
  let ?N = "n * 2 ^ nat (- ulp_exponent n d)" and ?D = "d * 2 ^ nat (ulp_exponent n d)"
  have D: "0 < ?D" using assms(1) by simp
  from assms(2) have "real_of_int K \<le> real_of_int ?N / real_of_int ?D"
    by (simp only: scaled_fraction [OF assms(1)])
  moreover have "0 < real_of_int ?D" using D by (simp only: of_int_0_less_iff)
  ultimately have "real_of_int K * real_of_int ?D \<le> real_of_int ?N"
    by (simp only: pos_le_divide_eq)
  then have "real_of_int (K * ?D) \<le> real_of_int ?N" by (simp only: of_int_mult)
  then have "K * ?D \<le> ?N" by (simp only: of_int_le_iff)
  from rhe_lower [OF D this] show ?thesis by (simp only: round_to_double_fst)
qed

lemma round_to_double_le:
  assumes "0 < d" and "(real_of_int n / real_of_int d) * 2 powi (- ulp_exponent n d) \<le> real_of_int K"
  shows "fst (round_to_double n d) \<le> K"
proof -
  let ?N = "n * 2 ^ nat (- ulp_exponent n d)" and ?D = "d * 2 ^ nat (ulp_exponent n d)"
  have D: "0 < ?D" using assms(1) by simp
  from assms(2) have "real_of_int ?N / real_of_int ?D \<le> real_of_int K"
    by (simp only: scaled_fraction [OF assms(1)])
  moreover have "0 < real_of_int ?D" using D by (simp only: of_int_0_less_iff)
  ultimately have "real_of_int ?N \<le> real_of_int K * real_of_int ?D"
    by (simp only: pos_divide_le_eq)
  then have "real_of_int ?N \<le> real_of_int (K * ?D)" by (simp only: of_int_mult)
  then have "?N \<le> K * ?D" by (simp only: of_int_le_iff)
  from rhe_upper [OF D this] show ?thesis by (simp only: round_to_double_fst)
qed

lemma round_to_double_error:
  assumes "0 < d"
  shows "\<bar>real_of_int (fst (round_to_double n d))
          - (real_of_int n / real_of_int d) * 2 powi (- ulp_exponent n d)\<bar> \<le> 1 / 2"
proof -
  have D: "0 < d * 2 ^ nat (ulp_exponent n d)" using assms by simp
  from rhe_error [OF D, of "n * 2 ^ nat (- ulp_exponent n d)"] show ?thesis
    by (simp only: round_to_double_fst scaled_fraction [OF assms])
qed

lemma powi_cancel: "(2::real) powi (- e) * 2 powi e = 1" "(2::real) powi e * 2 powi (- e) = 1"
  by (simp_all flip: power_int_add)

lemma times_powi_le_iff:
  "(a * 2 powi (- e) \<le> b) = (a \<le> b * (2::real) powi e)"
  "(b \<le> a * 2 powi (- e)) = (b * (2::real) powi e \<le> a)"
proof -
  have p: "(0::real) < 2 powi e" by simp
  have eq: "a * 2 powi (- e) = a / 2 powi e"
    by (simp add: power_int_minus divide_inverse)
  show "(a * 2 powi (- e) \<le> b) = (a \<le> b * (2::real) powi e)"
    unfolding eq using p by (simp add: pos_divide_le_eq)
  show "(b \<le> a * 2 powi (- e)) = (b * (2::real) powi e \<le> a)"
    unfolding eq using p by (simp add: pos_le_divide_eq)
qed

text \<open>A double: \<open>M * 2 powi E\<close> with \<open>0 \<le> M \<le> 2 ^ 53\<close> and \<open>- 1074 \<le> E\<close>.\<close>

lemma round_to_double_upper:
  assumes n: "0 < n" and d: "0 < d"
    and M: "0 \<le> M" "M \<le> 2 ^ 53" and E: "- 1074 \<le> E"
    and le: "real_of_int n / real_of_int d \<le> real_of_int M * 2 powi E"
  shows "float_val (round_to_double n d) \<le> real_of_int M * 2 powi E"
proof -
  define x where "x = real_of_int n / real_of_int d"
  define e where "e = ulp_exponent n d"
  define m where "m = fst (round_to_double n d)"
  have val: "float_val (round_to_double n d) = real_of_int m * 2 powi e"
    by (simp add: float_val_def m_def e_def round_to_double_snd)
  show ?thesis
  proof (cases "e \<le> E")
    case True
    define K where "K = M * 2 ^ nat (E - e)"
    have K: "real_of_int K = real_of_int M * 2 powi E * 2 powi (- e)"
    proof -
      have "(2::real) powi E * 2 powi (- e) = 2 powi (E - e)"
        by (simp flip: power_int_add)
      also have "\<dots> = 2 ^ nat (E - e)"
        using True by (simp add: power_int_nonneg_exp)
      finally show ?thesis by (simp add: K_def mult.assoc)
    qed
    have "x * 2 powi (- e) \<le> real_of_int K"
      unfolding K x_def using le by (intro mult_right_mono) simp_all
    then have "m \<le> K"
      unfolding m_def x_def e_def by (rule round_to_double_le [OF d])
    then have "real_of_int m \<le> real_of_int K" by simp
    then have "real_of_int m * 2 powi e \<le> real_of_int K * 2 powi e"
      by (simp add: mult_right_mono)
    also have "\<dots> = real_of_int M * 2 powi E"
      unfolding K by (simp add: mult.assoc powi_cancel)
    finally show ?thesis by (simp add: val)
  next
    case False
    then have lt: "E < e" by simp
    with E have "- 1074 < e" by simp
    then have low: "2 ^ 52 * 2 powi e \<le> x"
      unfolding x_def e_def by (rule ulp_exponent_spec(3) [OF n d])
    have "real_of_int M * 2 powi E \<le> 2 ^ 53 * 2 powi E"
    proof -
      from M(2) have "real_of_int M \<le> real_of_int (2 ^ 53)" by (simp only: of_int_le_iff)
      then show ?thesis by (simp add: mult_right_mono)
    qed
    also have "\<dots> \<le> 2 ^ 53 * 2 powi (e - 1)"
      using lt by (intro mult_left_mono power_int_increasing) simp_all
    also have "\<dots> = 2 ^ 52 * 2 powi e"
      using powi_split [of 53 "e - 1"] powi_split [of 52 e] by simp
    finally have R: "real_of_int M * 2 powi E \<le> 2 ^ 52 * 2 powi e" .
    with le low have xeq: "x = 2 ^ 52 * 2 powi e" by (simp add: x_def)
    have "x * 2 powi (- e) = real_of_int (2 ^ 52)"
      by (simp add: xeq mult.assoc powi_cancel)
    then have "m \<le> 2 ^ 52"
      unfolding m_def x_def e_def by (intro round_to_double_le [OF d]) simp
    then have "real_of_int m \<le> real_of_int (2 ^ 52)" by (simp only: of_int_le_iff)
    then have "real_of_int m * 2 powi e \<le> 2 ^ 52 * 2 powi e"
      by (simp add: mult_right_mono)
    also have "\<dots> \<le> real_of_int M * 2 powi E"
      using le xeq by (simp add: x_def)
    finally show ?thesis by (simp add: val)
  qed
qed

lemma round_to_double_lower:
  assumes n: "0 < n" and d: "0 < d"
    and M: "0 \<le> M" "M \<le> 2 ^ 53" and E: "- 1074 \<le> E"
    and le: "real_of_int M * 2 powi E \<le> real_of_int n / real_of_int d"
  shows "real_of_int M * 2 powi E \<le> float_val (round_to_double n d)"
proof -
  define x where "x = real_of_int n / real_of_int d"
  define e where "e = ulp_exponent n d"
  define m where "m = fst (round_to_double n d)"
  have val: "float_val (round_to_double n d) = real_of_int m * 2 powi e"
    by (simp add: float_val_def m_def e_def round_to_double_snd)
  show ?thesis
  proof (cases "e \<le> E")
    case True
    define K where "K = M * 2 ^ nat (E - e)"
    have K: "real_of_int K = real_of_int M * 2 powi E * 2 powi (- e)"
    proof -
      have "(2::real) powi E * 2 powi (- e) = 2 powi (E - e)"
        by (simp flip: power_int_add)
      also have "\<dots> = 2 ^ nat (E - e)"
        using True by (simp add: power_int_nonneg_exp)
      finally show ?thesis by (simp add: K_def mult.assoc)
    qed
    have "real_of_int K \<le> x * 2 powi (- e)"
      unfolding K x_def using le by (intro mult_right_mono) simp_all
    then have "K \<le> m"
      unfolding m_def x_def e_def by (rule round_to_double_ge [OF d])
    then have "real_of_int K \<le> real_of_int m" by simp
    then have "real_of_int K * 2 powi e \<le> real_of_int m * 2 powi e"
      by (simp add: mult_right_mono)
    moreover have "real_of_int K * 2 powi e = real_of_int M * 2 powi E"
      unfolding K by (simp add: mult.assoc powi_cancel)
    ultimately show ?thesis by (simp add: val)
  next
    case False
    then have lt: "E < e" by simp
    with E have "- 1074 < e" by simp
    then have low: "2 ^ 52 * 2 powi e \<le> x"
      unfolding x_def e_def by (rule ulp_exponent_spec(3) [OF n d])
    have "real_of_int M * 2 powi E \<le> 2 ^ 53 * 2 powi E"
    proof -
      from M(2) have "real_of_int M \<le> real_of_int (2 ^ 53)" by (simp only: of_int_le_iff)
      then show ?thesis by (simp add: mult_right_mono)
    qed
    also have "\<dots> \<le> 2 ^ 53 * 2 powi (e - 1)"
      using lt by (intro mult_left_mono power_int_increasing) simp_all
    also have "\<dots> = 2 ^ 52 * 2 powi e"
      using powi_split [of 53 "e - 1"] powi_split [of 52 e] by simp
    finally have R: "real_of_int M * 2 powi E \<le> 2 ^ 52 * 2 powi e" .
    from low have "real_of_int (2 ^ 52) \<le> x * 2 powi (- e)"
      by (simp add: times_powi_le_iff)
    then have "2 ^ 52 \<le> m"
      unfolding m_def x_def e_def by (rule round_to_double_ge [OF d])
    then have "real_of_int (2 ^ 52) \<le> real_of_int m" by (simp only: of_int_le_iff)
    then have "(2 ^ 52 :: real) \<le> real_of_int m" by simp
    then have A: "2 ^ 52 * 2 powi e \<le> real_of_int m * 2 powi e"
      by (intro mult_right_mono) simp_all
    from R A show ?thesis unfolding val by (rule order_trans)
  qed
qed

lemma round_to_double_fst_nonneg:
  assumes "0 < n" and "0 < d"
  shows "0 \<le> fst (round_to_double n d)"
proof -
  have "0 \<le> n * 2 ^ nat (- ulp_exponent n d)" using assms by simp
  moreover have "0 < d * 2 ^ nat (ulp_exponent n d)" using assms by simp
  ultimately show ?thesis
    by (simp only: round_to_double_fst rhe_nonneg)
qed

lemma round_to_double_fst_le:
  assumes "0 < n" and "0 < d"
  shows "fst (round_to_double n d) \<le> 2 ^ 53"
proof -
  have "(real_of_int n / real_of_int d) < 2 ^ 53 * 2 powi (ulp_exponent n d)"
    by (rule ulp_exponent_spec(2) [OF assms])
  then have "(real_of_int n / real_of_int d) \<le> 2 ^ 53 * 2 powi (ulp_exponent n d)"
    by (rule less_imp_le)
  then have "(real_of_int n / real_of_int d) * 2 powi (- ulp_exponent n d) \<le> 2 ^ 53"
    by (simp only: times_powi_le_iff)
  then have "(real_of_int n / real_of_int d) * 2 powi (- ulp_exponent n d) \<le> real_of_int (2 ^ 53)"
    by simp
  then show ?thesis by (rule round_to_double_le [OF assms(2)])
qed

lemma float_val_neg: "float_val (- m, e) = - float_val (m, e)"
  by (simp add: float_val_def)

lemma nearest_double_cases:
  assumes "nearest_double n d = Inr f"
  shows "(n = 0 \<and> f = (0, 0))
       \<or> (0 < n \<and> f = round_to_double n d)
       \<or> (n < 0 \<and> f = (- fst (round_to_double (- n) d), snd (round_to_double (- n) d)))"
proof -
  consider "n = 0" | "0 < n" | "n < 0" by linarith
  then show ?thesis
  proof cases
    case 1
    with assms show ?thesis by (simp add: nearest_double_def)
  next
    case 2
    with assms show ?thesis
      by (auto simp: nearest_double_def Let_def split: if_splits)
  next
    case 3
    with assms show ?thesis
      by (auto simp: nearest_double_def Let_def split: if_splits)
  qed
qed

lemma float_val_round_nonneg:
  assumes "0 < n" and "0 < d"
  shows "0 \<le> float_val (round_to_double n d)"
  using round_to_double_fst_nonneg [OF assms] by (simp add: float_val_def)

lemma nearest_double_sign:
  assumes "nearest_double n d = Inr f" and "0 < d"
  shows "0 \<le> n \<Longrightarrow> 0 \<le> fst f" and "n \<le> 0 \<Longrightarrow> fst f \<le> 0"
    and "0 \<le> n \<Longrightarrow> 0 \<le> float_val f" and "n \<le> 0 \<Longrightarrow> float_val f \<le> 0"
proof -
  from nearest_double_cases [OF assms(1)]
  consider "n = 0" "f = (0, 0)" | "0 < n" "f = round_to_double n d"
    | "n < 0" "f = (- fst (round_to_double (- n) d), snd (round_to_double (- n) d))"
    by blast
  then have "(0 \<le> n \<longrightarrow> 0 \<le> fst f) \<and> (n \<le> 0 \<longrightarrow> fst f \<le> 0)"
  proof cases
    case 1
    then show ?thesis by simp
  next
    case 2
    with round_to_double_fst_nonneg [OF 2(1) assms(2)] show ?thesis by simp
  next
    case 3
    then have "0 < - n" by simp
    from round_to_double_fst_nonneg [OF this assms(2)] 3 show ?thesis by simp
  qed
  then show "0 \<le> n \<Longrightarrow> 0 \<le> fst f" and "n \<le> 0 \<Longrightarrow> fst f \<le> 0"
    and "0 \<le> n \<Longrightarrow> 0 \<le> float_val f" and "n \<le> 0 \<Longrightarrow> float_val f \<le> 0"
    by (simp_all add: float_val_def mult_nonneg_nonneg mult_nonpos_nonneg)
qed

lemma nearest_double_upper:
  assumes f: "nearest_double n d = Inr f" and d: "0 < d"
    and M: "0 \<le> M" "M \<le> 2 ^ 53" and E: "- 1074 \<le> E"
    and le: "real_of_int n / real_of_int d \<le> real_of_int M * 2 powi E"
  shows "float_val f \<le> real_of_int M * 2 powi E"
proof (cases "0 < n")
  case True
  with nearest_double_cases [OF f] have "f = round_to_double n d" by auto
  with round_to_double_upper [OF True d M E le] show ?thesis by simp
next
  case False
  then have "n \<le> 0" by simp
  from nearest_double_sign(4) [OF f d this] have "float_val f \<le> 0" .
  also have "0 \<le> real_of_int M * 2 powi E" using M(1) by simp
  finally show ?thesis .
qed

lemma nearest_double_lower:
  assumes f: "nearest_double n d = Inr f" and d: "0 < d"
    and M: "0 \<le> M" "M \<le> 2 ^ 53" and E: "- 1074 \<le> E"
    and le: "real_of_int M * 2 powi E \<le> real_of_int n / real_of_int d"
  shows "real_of_int M * 2 powi E \<le> float_val f"
proof (cases "0 < n")
  case True
  with nearest_double_cases [OF f] have "f = round_to_double n d" by auto
  with round_to_double_lower [OF True d M E le] show ?thesis by simp
next
  case False
  then have n: "n \<le> 0" by simp
  then have "real_of_int n / real_of_int d \<le> 0"
    using d by (simp add: divide_nonpos_pos)
  moreover have "0 \<le> real_of_int M * 2 powi E" using M(1) by simp
  ultimately have R: "real_of_int M * 2 powi E = 0" and "real_of_int n / real_of_int d = 0"
    using le by linarith+
  with d have "n = 0" by simp
  with f have "f = (0, 0)" by (simp add: nearest_double_def)
  with R show ?thesis by (simp add: float_val_def)
qed

lemma nearest_double_exact:
  assumes f: "nearest_double n d = Inr f" and d: "0 < d"
    and M: "0 \<le> M" "M \<le> 2 ^ 53" and E: "- 1074 \<le> E"
    and eq: "real_of_int n / real_of_int d = real_of_int M * 2 powi E"
  shows "float_val f = real_of_int M * 2 powi E"
proof (rule antisym)
  show "float_val f \<le> real_of_int M * 2 powi E"
    using eq by (intro nearest_double_upper [OF f d M E]) simp
  show "real_of_int M * 2 powi E \<le> float_val f"
    using eq by (intro nearest_double_lower [OF f d M E]) simp
qed

lemma round_to_double_no_overflow:
  assumes n: "0 < n" and d: "0 < d"
    and le: "real_of_int n / real_of_int d \<le> 2 ^ 1023"
  shows "fst (round_to_double n d) * 2 ^ nat (snd (round_to_double n d)) < 2 ^ 1024"
proof -
  define m where "m = fst (round_to_double n d)"
  define e where "e = snd (round_to_double n d)"
  have m0: "0 \<le> m" and m53: "m \<le> 2 ^ 53"
    unfolding m_def by (rule round_to_double_fst_nonneg [OF n d], rule round_to_double_fst_le [OF n d])
  show ?thesis
  proof (cases "0 \<le> e")
    case True
    have R: "(2::real) ^ 1023 = real_of_int (2 ^ 52) * 2 powi 971"
      by simp
    have "float_val (round_to_double n d) \<le> real_of_int (2 ^ 52) * 2 powi 971"
      using le by (intro round_to_double_upper [OF n d]) (simp_all only: R [symmetric], simp_all)
    then have "real_of_int m * 2 powi e \<le> 2 ^ 1023"
      by (simp only: R [symmetric] float_val_def m_def e_def)
    moreover have "real_of_int m * 2 powi e = real_of_int (m * 2 ^ nat e)"
      using True by (simp add: power_int_nonneg_exp)
    ultimately have "real_of_int (m * 2 ^ nat e) < real_of_int (2 ^ 1024)"
      by simp
    then have "m * 2 ^ nat e < 2 ^ 1024" by (simp only: of_int_less_iff)
    then show ?thesis by (simp only: m_def e_def)
  next
    case False
    then have "m * 2 ^ nat e = m" by simp
    also have "\<dots> < 2 ^ 1024" using m53 by simp
    finally show ?thesis by (simp only: m_def e_def)
  qed
qed

lemma nearest_double_ok:
  assumes d: "0 < d" and le: "\<bar>real_of_int n\<bar> / real_of_int d \<le> 2 ^ 1023"
  shows "\<exists>f. nearest_double n d = Inr f"
proof (cases "n = 0")
  case True
  then show ?thesis by (simp add: nearest_double_def)
next
  case False
  then have a: "0 < \<bar>n\<bar>" by simp
  have "real_of_int \<bar>n\<bar> / real_of_int d \<le> 2 ^ 1023" using le by simp
  from round_to_double_no_overflow [OF a d this] False show ?thesis
    by (simp add: nearest_double_def Let_def)
qed

lemma float_less_iff: "float_less x y = (float_val x < float_val y)"
proof -
  define e where "e = min (snd x) (snd y)"
  have sx: "float_val x = real_of_int (fst x * 2 ^ nat (snd x - e)) * 2 powi e"
  proof -
    have "(2::real) powi (snd x) = 2 powi (snd x - e) * 2 powi e"
      by (simp flip: power_int_add)
    also have "(2::real) powi (snd x - e) = 2 ^ nat (snd x - e)"
      by (simp add: e_def power_int_nonneg_exp)
    finally show ?thesis by (simp add: float_val_def mult.assoc)
  qed
  have sy: "float_val y = real_of_int (fst y * 2 ^ nat (snd y - e)) * 2 powi e"
  proof -
    have "(2::real) powi (snd y) = 2 powi (snd y - e) * 2 powi e"
      by (simp flip: power_int_add)
    also have "(2::real) powi (snd y - e) = 2 ^ nat (snd y - e)"
      by (simp add: e_def power_int_nonneg_exp)
    finally show ?thesis by (simp add: float_val_def mult.assoc)
  qed
  have "(float_val x < float_val y)
      = (real_of_int (fst x * 2 ^ nat (snd x - e)) < real_of_int (fst y * 2 ^ nat (snd y - e)))"
    unfolding sx sy by (rule mult_less_cancel_right_pos) simp
  also have "\<dots> = (fst x * 2 ^ nat (snd x - e) < fst y * 2 ^ nat (snd y - e))"
    by (simp only: of_int_less_iff)
  also have "\<dots> = float_less x y"
    by (simp add: float_less_def Let_def e_def)
  finally show ?thesis by simp
qed

lemma float_val_half: "float_val half = 1 / 2" and float_val_quarter: "float_val quarter = 1 / 4"
  by (simp_all add: float_val_def half_def quarter_def)

lemma int_of_float_floor:
  assumes "0 \<le> fst x"
  shows "int_of_float x = \<lfloor>float_val x\<rfloor>"
proof (cases "0 \<le> snd x")
  case True
  then have "float_val x = real_of_int (fst x * 2 ^ nat (snd x))"
    by (simp add: float_val_def power_int_nonneg_exp)
  then have "\<lfloor>float_val x\<rfloor> = fst x * 2 ^ nat (snd x)"
    by (simp only: floor_of_int)
  with True show ?thesis by (simp add: int_of_float_def)
next
  case False
  then have "float_val x = real_of_int (fst x) / real_of_int (2 ^ nat (- snd x))"
    by (simp add: float_val_def two_powi_nat)
  then have "\<lfloor>float_val x\<rfloor> = fst x div 2 ^ nat (- snd x)"
    by (simp only: floor_divide_of_int_eq)
  moreover have "sgn (fst x) * (\<bar>fst x\<bar> div 2 ^ nat (- snd x)) = fst x div 2 ^ nat (- snd x)"
    using assms by (cases "fst x = 0") (simp_all add: sgn_if)
  ultimately show ?thesis using False by (simp add: int_of_float_def)
qed

lemma float_mul_fraction:
  "real_of_int (m * 2 ^ nat e) / real_of_int (2 ^ nat (- e)) = real_of_int m * 2 powi e"
  by (cases "0 \<le> e") (simp_all add: two_powi_nat)

lemma float_mul_val:
  "real_of_int (fst x * fst y * 2 ^ nat (snd x + snd y)) / real_of_int (2 ^ nat (- (snd x + snd y)))
   = float_val x * float_val y"
  by (simp only: float_mul_fraction) (simp add: float_val_def power_int_add)

subsection \<open>The rounding is to a nearest double\<close>

lemma round_half_even_tie:
  assumes "2 * (n mod d) = d"
  shows "even (round_half_even n d)"
  using assms by (simp add: round_half_even_def Let_def)

text \<open>
  \<open>round_to_double\<close> returns a double, that is \<open>m * 2 ^ e\<close> with \<open>0 \<le> m \<le> 2 ^ 53\<close>
  and \<open>- 1074 \<le> e\<close>, and no double is nearer to \<open>n / d\<close>.
\<close>

lemma round_to_double_nearest:
  assumes n: "0 < n" and d: "0 < d"
    and M: "0 \<le> M" "M \<le> 2 ^ 53" and E: "- 1074 \<le> E"
  shows "\<bar>float_val (round_to_double n d) - real_of_int n / real_of_int d\<bar>
         \<le> \<bar>real_of_int M * 2 powi E - real_of_int n / real_of_int d\<bar>"
proof -
  define x where "x = real_of_int n / real_of_int d"
  define e where "e = ulp_exponent n d"
  define m where "m = fst (round_to_double n d)"
  define u where "u = (2::real) powi e"
  define v where "v = float_val (round_to_double n d)"
  define R where "R = real_of_int M * 2 powi E"
  have u: "0 < u" by (simp add: u_def)
  have v: "v = real_of_int m * u"
    by (simp add: v_def float_val_def m_def e_def u_def round_to_double_snd)
  have err: "\<bar>real_of_int m - x * 2 powi (- e)\<bar> \<le> 1 / 2"
    unfolding m_def x_def e_def by (rule round_to_double_error [OF d])
  have "v - x = (real_of_int m - x * 2 powi (- e)) * u"
    by (simp add: v u_def algebra_simps powi_cancel)
  then have "\<bar>v - x\<bar> = \<bar>real_of_int m - x * 2 powi (- e)\<bar> * u"
    using u by (simp add: abs_mult)
  also have "\<dots> \<le> (1 / 2) * u"
    using err u by (intro mult_right_mono) simp_all
  finally have verr: "\<bar>v - x\<bar> \<le> u / 2" by simp
  have "\<bar>v - x\<bar> \<le> \<bar>R - x\<bar>"
  proof (cases "e \<le> E")
    case True
    define K where "K = M * 2 ^ nat (E - e)"
    have "(2::real) powi E = 2 powi (E - e) * 2 powi e"
      by (simp flip: power_int_add)
    also have "(2::real) powi (E - e) = 2 ^ nat (E - e)"
      using True by (simp add: power_int_nonneg_exp)
    finally have RK: "R = real_of_int K * u"
      by (simp add: R_def K_def u_def mult.assoc)
    show ?thesis
    proof (cases "K = m")
      case True
      with RK v show ?thesis by simp
    next
      case False
      then have "1 \<le> \<bar>K - m\<bar>" by simp
      then have "real_of_int 1 \<le> real_of_int \<bar>K - m\<bar>" by (simp only: of_int_le_iff)
      then have "1 \<le> \<bar>real_of_int K - real_of_int m\<bar>" by simp
      then have "1 * u \<le> \<bar>real_of_int K - real_of_int m\<bar> * u"
        using u by (intro mult_right_mono) simp_all
      moreover have "R - v = (real_of_int K - real_of_int m) * u"
        by (simp add: RK v algebra_simps)
      ultimately have "u \<le> \<bar>R - v\<bar>"
        using u by (simp add: abs_mult)
      with verr show ?thesis by linarith
    qed
  next
    case False
    then have lt: "E < e" by simp
    with E have "- 1074 < e" by simp
    then have low: "2 ^ 52 * u \<le> x"
      unfolding x_def e_def u_def by (rule ulp_exponent_spec(3) [OF n d])
    have "R \<le> 2 ^ 53 * 2 powi E"
    proof -
      from M(2) have "real_of_int M \<le> real_of_int (2 ^ 53)" by (simp only: of_int_le_iff)
      then show ?thesis by (simp add: R_def mult_right_mono)
    qed
    also have "\<dots> \<le> 2 ^ 53 * 2 powi (e - 1)"
      using lt by (intro mult_left_mono power_int_increasing) simp_all
    also have "\<dots> = 2 ^ 52 * u"
      using powi_split [of 53 "e - 1"] powi_split [of 52 e] by (simp add: u_def)
    finally have R: "R \<le> 2 ^ 52 * u" .
    from low have "real_of_int (2 ^ 52) \<le> x * 2 powi (- e)"
      by (simp add: times_powi_le_iff u_def)
    then have m52: "2 ^ 52 \<le> m"
      unfolding m_def x_def e_def by (rule round_to_double_ge [OF d])
    show ?thesis
    proof (cases "v \<le> x")
      case True
      from m52 have "real_of_int (2 ^ 52) \<le> real_of_int m" by (simp only: of_int_le_iff)
      then have "(2 ^ 52 :: real) \<le> real_of_int m" by simp
      then have "2 ^ 52 * u \<le> v"
        unfolding v using u by (intro mult_right_mono) simp_all
      with R True show ?thesis by linarith
    next
      case False
      have "m \<noteq> 2 ^ 52"
      proof
        assume "m = 2 ^ 52"
        then have "v = 2 ^ 52 * u" by (simp add: v)
        with low False show False by simp
      qed
      with m52 have "2 ^ 52 + 1 \<le> m" by simp
      then have "real_of_int (2 ^ 52 + 1) \<le> real_of_int m" by (simp only: of_int_le_iff)
      then have "(2 ^ 52 + 1 :: real) \<le> real_of_int m" by simp
      then have "(2 ^ 52 + 1) * u \<le> v"
        unfolding v using u by (intro mult_right_mono) simp_all
      then have "2 ^ 52 * u + u \<le> v" by (simp add: algebra_simps)
      with R verr False show ?thesis by linarith
    qed
  qed
  then show ?thesis by (simp add: v_def R_def x_def)
qed

lemma round_to_double_is_double:
  assumes "0 < n" and "0 < d"
  shows "0 \<le> fst (round_to_double n d)" and "fst (round_to_double n d) \<le> 2 ^ 53"
    and "- 1074 \<le> snd (round_to_double n d)"
proof -
  show "0 \<le> fst (round_to_double n d)" by (rule round_to_double_fst_nonneg [OF assms])
  show "fst (round_to_double n d) \<le> 2 ^ 53" by (rule round_to_double_fst_le [OF assms])
  show "- 1074 \<le> snd (round_to_double n d)"
    unfolding round_to_double_snd by (rule ulp_exponent_spec(1) [OF assms])
qed

section \<open>Properties of the health bar\<close>

lemma get_health_bar_eq:
  "get_health_bar hv mx len =
     (case bar_color hv mx of
        Inl err \<Rightarrow> Inl err
      | Inr c \<Rightarrow>
          (case filled_length hv mx len of
             Inl err \<Rightarrow> Inl err
           | Inr f \<Rightarrow>
               Inr ([91] @ c @ replicate (nat f) 9608 @ Style_RESET_ALL
                    @ replicate (nat (len - f)) 9472
                    @ [93, 32] @ str_int hv @ [47] @ str_int mx)))"
  by (simp add: get_health_bar_def bar_color_def filled_length_def str_mul_def Let_def
      split: sum.splits)

lemma digits_no_esc: "27 \<notin> set (digits n)"
proof (induction n rule: digits.induct)
  case (1 n)
  show ?case
  proof (cases "n < 10")
    case True
    then show ?thesis by (subst digits.simps) simp
  next
    case False
    with 1 show ?thesis by (subst digits.simps) simp
  qed
qed

lemma str_int_no_esc: "27 \<notin> set (str_int i)"
  by (simp add: str_int_def digits_no_esc)

lemma ansi_match_no_esc: "c \<noteq> 27 \<Longrightarrow> ansi_match (c # cs) = None"
  by (simp add: ansi_match_def split: list.splits)

lemma strip_from_plain:
  "27 \<notin> set xs \<Longrightarrow> strip_from 0 (xs @ ys) = xs @ strip_from 0 ys"
  by (induction xs) (auto simp: ansi_match_no_esc)

lemma strip_from_plain_end: "27 \<notin> set xs \<Longrightarrow> strip_from 0 xs = xs"
  using strip_from_plain [of xs "[]"] by simp

lemma strip_from_codes:
  "strip_from 0 (Fore_GREEN @ ys) = strip_from 0 ys"
  "strip_from 0 (Fore_YELLOW @ ys) = strip_from 0 ys"
  "strip_from 0 (Fore_RED @ ys) = strip_from 0 ys"
  "strip_from 0 (Style_RESET_ALL @ ys) = strip_from 0 ys"
  by (simp_all add: Fore_GREEN_def Fore_YELLOW_def Fore_RED_def Style_RESET_ALL_def
      ansi_match_def final_at_def is_final_def is_digit_def Let_def)

lemma bar_color_of_cases:
  "bar_color_of p = Fore_GREEN \<or> bar_color_of p = Fore_YELLOW \<or> bar_color_of p = Fore_RED"
  by (simp add: bar_color_of_def Let_def)

lemma strip_ansi_bar:
  assumes "c = Fore_GREEN \<or> c = Fore_YELLOW \<or> c = Fore_RED"
  shows "strip_ansi ([91] @ c @ replicate a 9608 @ Style_RESET_ALL @ replicate b 9472
            @ [93, 32] @ str_int hv @ [47] @ str_int mx)
         = [91] @ replicate a 9608 @ replicate b 9472 @ [93, 32] @ str_int hv @ [47] @ str_int mx"
proof -
  let ?tail = "replicate b 9472 @ [93, 32] @ str_int hv @ [47] @ str_int mx"
  have tail: "27 \<notin> set ?tail"
    by (simp add: str_int_no_esc)
  have "strip_from 0 ([91] @ c @ replicate a 9608 @ Style_RESET_ALL @ ?tail)
      = [91] @ strip_from 0 (c @ replicate a 9608 @ Style_RESET_ALL @ ?tail)"
    by (rule strip_from_plain) simp
  also have "strip_from 0 (c @ replicate a 9608 @ Style_RESET_ALL @ ?tail)
      = strip_from 0 (replicate a 9608 @ Style_RESET_ALL @ ?tail)"
    using assms by (auto simp only: strip_from_codes)
  also have "\<dots> = replicate a 9608 @ strip_from 0 (Style_RESET_ALL @ ?tail)"
    by (rule strip_from_plain) simp
  also have "strip_from 0 (Style_RESET_ALL @ ?tail) = strip_from 0 ?tail"
    by (simp only: strip_from_codes)
  also have "\<dots> = ?tail"
    using tail by (rule strip_from_plain_end)
  finally show ?thesis by (simp add: strip_ansi_def)
qed

lemma truediv_ratio:
  assumes "b \<noteq> 0"
  shows "real_of_int (a * sgn b) / real_of_int \<bar>b\<bar> = real_of_int a / real_of_int b"
  using assms by (cases "0 < b") (simp_all add: sgn_if)

lemma int_truediv_ok:
  assumes "b \<noteq> 0" and "\<bar>a\<bar> \<le> 2 ^ 1023"
  shows "\<exists>p. int_truediv a b = Inr p"
proof -
  have b: "0 < \<bar>b\<bar>" using assms(1) by simp
  then have b1: "1 \<le> real_of_int \<bar>b\<bar>" by linarith
  have eq: "\<bar>real_of_int (a * sgn b)\<bar> = real_of_int \<bar>a\<bar>"
    using assms(1) by (simp add: abs_mult sgn_if)
  have "real_of_int \<bar>a\<bar> / real_of_int \<bar>b\<bar> \<le> real_of_int \<bar>a\<bar> / 1"
    using b1 by (intro divide_left_mono) simp_all
  also have "\<dots> \<le> real_of_int (2 ^ 1023)"
    using assms(2) by (simp only: of_int_le_iff div_by_1)
  finally have "\<bar>real_of_int (a * sgn b)\<bar> / real_of_int \<bar>b\<bar> \<le> 2 ^ 1023"
    by (simp only: eq) simp
  from nearest_double_ok [OF b this] assms(1) show ?thesis
    by (simp add: int_truediv_def)
qed

lemma percent_upper:
  assumes "int_truediv a b = Inr p" and "b \<noteq> 0"
    and "0 \<le> M" "M \<le> 2 ^ 53" "- 1074 \<le> E"
    and "real_of_int a / real_of_int b \<le> real_of_int M * 2 powi E"
  shows "float_val p \<le> real_of_int M * 2 powi E"
proof -
  from assms(1,2) have nd: "nearest_double (a * sgn b) \<bar>b\<bar> = Inr p"
    by (simp add: int_truediv_def)
  have d: "0 < \<bar>b\<bar>" using assms(2) by simp
  have le: "real_of_int (a * sgn b) / real_of_int \<bar>b\<bar> \<le> real_of_int M * 2 powi E"
    by (simp only: truediv_ratio [OF assms(2)] assms(6))
  show ?thesis
    by (rule nearest_double_upper [OF nd d assms(3) assms(4) assms(5) le])
qed

lemma percent_lower:
  assumes "int_truediv a b = Inr p" and "b \<noteq> 0"
    and "0 \<le> M" "M \<le> 2 ^ 53" "- 1074 \<le> E"
    and "real_of_int M * 2 powi E \<le> real_of_int a / real_of_int b"
  shows "real_of_int M * 2 powi E \<le> float_val p"
proof -
  from assms(1,2) have nd: "nearest_double (a * sgn b) \<bar>b\<bar> = Inr p"
    by (simp add: int_truediv_def)
  have d: "0 < \<bar>b\<bar>" using assms(2) by simp
  have le: "real_of_int M * 2 powi E \<le> real_of_int (a * sgn b) / real_of_int \<bar>b\<bar>"
    by (simp only: truediv_ratio [OF assms(2)] assms(6))
  show ?thesis
    by (rule nearest_double_lower [OF nd d assms(3) assms(4) assms(5) le])
qed

text \<open>The thresholds, for a positive maximum of at most \<open>2 ^ 53\<close>.\<close>

lemma percent_less_half:
  assumes p: "int_truediv hv mx = Inr p" and mx: "0 < mx" "mx \<le> 2 ^ 53"
  shows "float_less p half = (2 * hv < mx)"
proof (cases "2 * hv < mx")
  case True
  then have "2 ^ 53 * (2 * hv) \<le> 2 ^ 53 * (mx - 1)" by simp
  also have "\<dots> \<le> (2 ^ 53 - 1) * mx" using mx by (simp add: algebra_simps)
  finally have "2 ^ 54 * hv \<le> (2 ^ 53 - 1) * mx" by simp
  then have "real_of_int (2 ^ 54 * hv) \<le> real_of_int ((2 ^ 53 - 1) * mx)"
    by (simp only: of_int_le_iff)
  then have "real_of_int hv / real_of_int mx \<le> real_of_int (2 ^ 53 - 1) * 2 powi (- 54)"
    using mx(1) by (simp add: field_simps)
  then have "float_val p \<le> real_of_int (2 ^ 53 - 1) * 2 powi (- 54)"
    using mx(1) by (intro percent_upper [OF p]) simp_all
  also have "\<dots> < 1 / 2" by simp
  finally show ?thesis using True by (simp add: float_less_iff float_val_half)
next
  case False
  then have "real_of_int mx \<le> real_of_int (2 * hv)" by (simp only: of_int_le_iff)
  then have "real_of_int 1 * 2 powi (- 1) \<le> real_of_int hv / real_of_int mx"
    using mx(1) by (simp add: field_simps)
  then have "real_of_int 1 * 2 powi (- 1) \<le> float_val p"
    using mx(1) by (intro percent_lower [OF p]) simp_all
  then show ?thesis using False by (simp add: float_less_iff float_val_half)
qed

lemma percent_less_quarter:
  assumes p: "int_truediv hv mx = Inr p" and mx: "0 < mx" "mx \<le> 2 ^ 53"
  shows "float_less p quarter = (4 * hv < mx)"
proof (cases "4 * hv < mx")
  case True
  then have "2 ^ 53 * (4 * hv) \<le> 2 ^ 53 * (mx - 1)" by simp
  also have "\<dots> \<le> (2 ^ 53 - 1) * mx" using mx by (simp add: algebra_simps)
  finally have "2 ^ 55 * hv \<le> (2 ^ 53 - 1) * mx" by simp
  then have "real_of_int (2 ^ 55 * hv) \<le> real_of_int ((2 ^ 53 - 1) * mx)"
    by (simp only: of_int_le_iff)
  then have "real_of_int hv / real_of_int mx \<le> real_of_int (2 ^ 53 - 1) * 2 powi (- 55)"
    using mx(1) by (simp add: field_simps)
  then have "float_val p \<le> real_of_int (2 ^ 53 - 1) * 2 powi (- 55)"
    using mx(1) by (intro percent_upper [OF p]) simp_all
  also have "\<dots> < 1 / 4" by simp
  finally show ?thesis using True by (simp add: float_less_iff float_val_quarter)
next
  case False
  then have "real_of_int mx \<le> real_of_int (4 * hv)" by (simp only: of_int_le_iff)
  then have "real_of_int 1 * 2 powi (- 2) \<le> real_of_int hv / real_of_int mx"
    using mx(1) by (simp add: field_simps)
  then have "real_of_int 1 * 2 powi (- 2) \<le> float_val p"
    using mx(1) by (intro percent_lower [OF p]) simp_all
  then show ?thesis using False by (simp add: float_less_iff float_val_quarter)
qed

lemma float_of_int_exact:
  assumes "0 \<le> i" and "i \<le> 2 ^ 53"
  shows "\<exists>x. float_of_int i = Inr x \<and> float_val x = real_of_int i \<and> 0 \<le> fst x"
proof -
  have "\<bar>real_of_int i\<bar> \<le> real_of_int (2 ^ 53)"
    using assms by (simp only: of_int_le_iff abs_of_nonneg of_int_0_le_iff)
  also have "\<dots> \<le> 2 ^ 1023" by simp
  finally have "\<bar>real_of_int i\<bar> / real_of_int 1 \<le> 2 ^ 1023" by simp
  from nearest_double_ok [OF _ this] obtain x where x: "nearest_double i 1 = Inr x" by auto
  have "float_val x = real_of_int i * 2 powi 0"
    using assms by (intro nearest_double_exact [OF x]) simp_all
  moreover have "0 \<le> fst x"
    using assms(1) by (intro nearest_double_sign(1) [OF x]) simp_all
  ultimately show ?thesis using x by (simp add: float_of_int_def)
qed

lemma float_mul_nearest:
  "float_mul x y = nearest_double (fst x * fst y * 2 ^ nat (snd x + snd y)) (2 ^ nat (- (snd x + snd y)))"
  by (simp add: float_mul_def Let_def)

text \<open>The product of two non-negative floats that does not exceed a double.\<close>

lemma float_mul_bounded:
  assumes x: "0 \<le> fst x" and y: "0 \<le> fst y"
    and M: "0 \<le> M" "M \<le> 2 ^ 53"
    and le: "float_val x * float_val y \<le> real_of_int M"
  shows "\<exists>q. float_mul x y = Inr q \<and> 0 \<le> fst q \<and> float_val q \<le> real_of_int M"
proof -
  let ?N = "fst x * fst y * 2 ^ nat (snd x + snd y)" and ?D = "(2::int) ^ nat (- (snd x + snd y))"
  have D: "0 < ?D" by simp
  have N: "0 \<le> ?N" using x y by simp
  have ratio: "real_of_int ?N / real_of_int ?D = float_val x * float_val y"
    by (rule float_mul_val)
  have "\<bar>real_of_int ?N\<bar> / real_of_int ?D = float_val x * float_val y"
    using N ratio by (simp only: abs_of_nonneg of_int_0_le_iff)
  also have "\<dots> \<le> real_of_int (2 ^ 53)"
    using le M(2) by (meson of_int_le_iff order_trans)
  also have "\<dots> \<le> 2 ^ 1023" by simp
  finally have "\<bar>real_of_int ?N\<bar> / real_of_int ?D \<le> 2 ^ 1023" .
  from nearest_double_ok [OF D this] obtain q where q: "nearest_double ?N ?D = Inr q" by auto
  have "real_of_int ?N / real_of_int ?D \<le> real_of_int M * 2 powi 0"
    using le by (simp only: ratio) simp
  from nearest_double_upper [OF q D M _ this] have "float_val q \<le> real_of_int M" by simp
  moreover have "0 \<le> fst q" by (rule nearest_double_sign(1) [OF q D N])
  ultimately show ?thesis using q by (simp add: float_mul_nearest)
qed

lemma unit_percent:
  assumes mx: "0 < mx" and hv: "0 \<le> hv" "hv \<le> mx"
  shows "\<exists>p. int_truediv hv mx = Inr p \<and> 0 \<le> fst p \<and> 0 \<le> float_val p \<and> float_val p \<le> 1"
proof -
  have ratio: "0 \<le> real_of_int hv / real_of_int mx" "real_of_int hv / real_of_int mx \<le> 1"
    using mx hv by simp_all
  have eq: "int_truediv hv mx = nearest_double hv mx"
    using mx by (simp add: int_truediv_def)
  have "\<bar>real_of_int hv\<bar> / real_of_int mx \<le> 1"
    using ratio(2) hv(1) by simp
  also have "(1::real) \<le> 2 ^ 1023" by simp
  finally have "\<bar>real_of_int hv\<bar> / real_of_int mx \<le> 2 ^ 1023" .
  from nearest_double_ok [OF mx this] obtain p where p: "nearest_double hv mx = Inr p" by auto
  have "real_of_int hv / real_of_int mx \<le> real_of_int 1 * 2 powi 0"
    using ratio(2) by simp
  from nearest_double_upper [OF p mx _ _ _ this] have "float_val p \<le> 1" by simp
  moreover have "0 \<le> fst p" by (rule nearest_double_sign(1) [OF p mx hv(1)])
  moreover have "0 \<le> float_val p" by (rule nearest_double_sign(3) [OF p mx hv(1)])
  ultimately show ?thesis using p eq by simp
qed

lemma filled_length_in_range:
  assumes mx: "0 < mx" and hv: "0 \<le> hv" "hv \<le> mx" and len: "0 \<le> len" "len \<le> 2 ^ 53"
  shows "\<exists>f. filled_length hv mx len = Inr f \<and> 0 \<le> f \<and> f \<le> len"
proof -
  from unit_percent [OF mx hv] obtain p where p: "int_truediv hv mx = Inr p"
    and p0: "0 \<le> fst p" "0 \<le> float_val p" and p1: "float_val p \<le> 1" by blast
  from float_of_int_exact [OF len] obtain l where l: "float_of_int len = Inr l"
    and lv: "float_val l = real_of_int len" and l0: "0 \<le> fst l" by blast
  have "float_val l * float_val p \<le> real_of_int len * 1"
    unfolding lv using p1 len(1) by (intro mult_left_mono) simp_all
  then have "float_val l * float_val p \<le> real_of_int len" by simp
  from float_mul_bounded [OF l0 p0(1) len this] obtain q where q: "float_mul l p = Inr q"
    and q0: "0 \<le> fst q" and q1: "float_val q \<le> real_of_int len" by blast
  have f: "filled_length hv mx len = Inr (int_of_float q)"
    by (simp add: filled_length_def filled_length_of_def int_mul_float_def p l q)
  have fl: "int_of_float q = \<lfloor>float_val q\<rfloor>" by (rule int_of_float_floor [OF q0])
  have "0 \<le> float_val q" using q0 by (simp add: float_val_def)
  then have "0 \<le> \<lfloor>float_val q\<rfloor>" by simp
  moreover have "\<lfloor>float_val q\<rfloor> \<le> len" using q1 by (simp add: floor_le_iff)
  ultimately show ?thesis using f fl by simp
qed

lemma round_to_double_rel_error:
  assumes n: "0 < n" and d: "0 < d"
    and normal: "2 powi (- 1021) \<le> real_of_int n / real_of_int d"
  shows "\<bar>float_val (round_to_double n d) - real_of_int n / real_of_int d\<bar>
         \<le> (real_of_int n / real_of_int d) / 2 ^ 53"
proof -
  define x where "x = real_of_int n / real_of_int d"
  define e where "e = ulp_exponent n d"
  define m where "m = fst (round_to_double n d)"
  have val: "float_val (round_to_double n d) = real_of_int m * 2 powi e"
    by (simp add: float_val_def m_def e_def round_to_double_snd)
  have e1: "- 1074 \<le> e" and up: "x < 2 ^ 53 * 2 powi e"
    unfolding e_def x_def by (rule ulp_exponent_spec [OF n d])+
  have "- 1074 < e"
  proof (rule ccontr)
    assume "\<not> - 1074 < e"
    with e1 have "e = - 1074" by simp
    with up have "x < 2 ^ 53 * 2 powi (- 1074)" by simp
    also have "\<dots> = 2 powi (- 1021)"
      using powi_split [of 53 "- 1074"] by simp
    finally show False using normal by (simp add: x_def)
  qed
  then have low: "2 ^ 52 * 2 powi e \<le> x"
    unfolding e_def x_def by (rule ulp_exponent_spec(3) [OF n d])
  have err: "\<bar>real_of_int m - x * 2 powi (- e)\<bar> \<le> 1 / 2"
    unfolding m_def x_def e_def by (rule round_to_double_error [OF d])
  have "real_of_int m * 2 powi e - x = (real_of_int m - x * 2 powi (- e)) * 2 powi e"
    by (simp add: algebra_simps powi_cancel)
  then have "\<bar>real_of_int m * 2 powi e - x\<bar> = \<bar>real_of_int m - x * 2 powi (- e)\<bar> * 2 powi e"
    by (simp add: abs_mult)
  also have "\<dots> \<le> (1 / 2) * 2 powi e"
    using err by (intro mult_right_mono) simp_all
  also have "\<dots> \<le> x / 2 ^ 53"
  proof -
    have "(2::real) ^ 53 = 2 * 2 ^ 52" by simp
    with low show ?thesis by (simp add: field_simps)
  qed
  finally show ?thesis by (simp add: val x_def)
qed

lemma floor_near:
  fixes v :: real
  assumes mx: "0 < mx" and K: "0 \<le> K"
    and near: "\<bar>v - real_of_int K / real_of_int mx\<bar> < 1 / real_of_int mx"
  shows "K div mx - 1 \<le> \<lfloor>v\<rfloor>" and "\<lfloor>v\<rfloor> \<le> K div mx"
    and "K mod mx \<noteq> 0 \<Longrightarrow> \<lfloor>v\<rfloor> = K div mx"
proof -
  define k where "k = K div mx"
  define r where "r = K mod mx"
  have Keq: "K = k * mx + r" and r: "0 \<le> r" "r < mx"
    using mx by (simp_all add: k_def r_def)
  have mxr: "0 < real_of_int mx" using mx by simp
  have X: "real_of_int K / real_of_int mx = real_of_int k + real_of_int r / real_of_int mx"
    using mx by (simp add: Keq field_simps)
  have delta: "1 / real_of_int mx \<le> 1"
    using mx by simp
  have rge: "0 \<le> real_of_int r / real_of_int mx"
    using r mx by simp
  have rle: "real_of_int r / real_of_int mx \<le> 1 - 1 / real_of_int mx"
  proof -
    from r(2) have "r + 1 \<le> mx" by simp
    then have "real_of_int (r + 1) \<le> real_of_int mx" by (simp only: of_int_le_iff)
    then show ?thesis using mxr by (simp add: field_simps)
  qed
  from near have lo: "real_of_int K / real_of_int mx - 1 / real_of_int mx < v"
    and hi: "v < real_of_int K / real_of_int mx + 1 / real_of_int mx"
    by (simp_all add: abs_less_iff)
  have "v < real_of_int k + 1"
    using hi X rle by linarith
  then have "v < real_of_int (k + 1)" by simp
  then have "\<lfloor>v\<rfloor> < k + 1" by (simp only: floor_less_iff)
  then show "\<lfloor>v\<rfloor> \<le> K div mx" by (simp add: k_def)
  have "real_of_int k - 1 \<le> v"
    using lo X rge delta by linarith
  then have "real_of_int (k - 1) \<le> v" by simp
  then have "k - 1 \<le> \<lfloor>v\<rfloor>" by (simp only: le_floor_iff)
  then show "K div mx - 1 \<le> \<lfloor>v\<rfloor>" by (simp add: k_def)
  show "\<lfloor>v\<rfloor> = K div mx" if "K mod mx \<noteq> 0"
  proof -
    from that r have "1 \<le> r" by (simp add: r_def)
    then have "real_of_int 1 \<le> real_of_int r" by (simp only: of_int_le_iff)
    then have "1 / real_of_int mx \<le> real_of_int r / real_of_int mx"
      using mxr by (simp add: divide_right_mono)
    with lo X have "real_of_int k \<le> v" by linarith
    then have "k \<le> \<lfloor>v\<rfloor>" by (simp only: le_floor_iff)
    with \<open>\<lfloor>v\<rfloor> < k + 1\<close> show ?thesis by (simp add: k_def)
  qed
qed

lemma float_mul_zero: "fst x = 0 \<or> fst y = 0 \<Longrightarrow> float_mul x y = Inr (0, 0)"
  by (auto simp: float_mul_nearest nearest_double_def)

lemma int_of_float_zero: "int_of_float (0, e) = 0"
  by (simp add: int_of_float_def)

lemma float_zero_fst:
  assumes "float_val x = 0"
  shows "fst x = 0"
  using assms by (simp add: float_val_def)

lemma filled_length_empty:
  assumes p: "int_truediv hv mx = Inr p" and l: "float_of_int len = Inr l"
    and z: "fst p = 0 \<or> fst l = 0"
  shows "filled_length hv mx len = Inr 0"
proof -
  from z have "float_mul l p = Inr (0, 0)" by (intro float_mul_zero) auto
  then show ?thesis
    by (simp add: filled_length_def filled_length_of_def int_mul_float_def p l int_of_float_zero)
qed

lemma float_mul_small:
  assumes x: "0 \<le> fst x" and y: "0 \<le> fst y"
    and le: "float_val x * float_val y \<le> 1 / 2"
  shows "\<exists>q. float_mul x y = Inr q \<and> int_of_float q = 0"
proof -
  let ?N = "fst x * fst y * 2 ^ nat (snd x + snd y)" and ?D = "(2::int) ^ nat (- (snd x + snd y))"
  have D: "0 < ?D" by simp
  have N: "0 \<le> ?N" using x y by simp
  have ratio: "real_of_int ?N / real_of_int ?D = float_val x * float_val y"
    by (rule float_mul_val)
  have "\<bar>real_of_int ?N\<bar> / real_of_int ?D = float_val x * float_val y"
    using N ratio by (simp only: abs_of_nonneg of_int_0_le_iff)
  also have "\<dots> \<le> 2 ^ 1023" using le by simp
  finally have "\<bar>real_of_int ?N\<bar> / real_of_int ?D \<le> 2 ^ 1023" .
  from nearest_double_ok [OF D this] obtain q where q: "nearest_double ?N ?D = Inr q" by auto
  have "real_of_int ?N / real_of_int ?D \<le> real_of_int 1 * 2 powi (- 1)"
    using le by (simp only: ratio) simp
  from nearest_double_upper [OF q D _ _ _ this] have q1: "float_val q \<le> 1 / 2" by simp
  have q0: "0 \<le> fst q" by (rule nearest_double_sign(1) [OF q D N])
  then have "0 \<le> float_val q" by (simp add: float_val_def)
  with q1 have "\<lfloor>float_val q\<rfloor> = 0" by (simp add: floor_eq_iff)
  with int_of_float_floor [OF q0] q show ?thesis by (simp add: float_mul_nearest)
qed

text \<open>A maximum beyond \<open>2 ^ 1000\<close>: the ratio is tiny and nothing is filled.\<close>

lemma filled_length_tiny:
  assumes mx: "2 ^ 1000 < mx" and hv: "0 \<le> hv" "hv \<le> 2 ^ 25" and len: "0 \<le> len" "len \<le> 2 ^ 25"
  shows "filled_length hv mx len = Inr 0"
proof -
  have mx0: "0 < mx" using mx by simp
  have "hv \<le> mx" using hv(2) mx by simp
  from unit_percent [OF mx0 hv(1) this] obtain p where p: "int_truediv hv mx = Inr p"
    and p0: "0 \<le> fst p" "0 \<le> float_val p" by blast
  have "len \<le> 2 ^ 53" using len(2) by simp
  from float_of_int_exact [OF len(1) this] obtain l where l: "float_of_int len = Inr l"
    and lv: "float_val l = real_of_int len" and l0: "0 \<le> fst l" by blast
  have "real_of_int hv \<le> real_of_int (2 ^ 25)" using hv(2) by (simp only: of_int_le_iff)
  moreover have "real_of_int (2 ^ 1000) \<le> real_of_int mx"
    using mx by (simp only: of_int_le_iff less_imp_le)
  ultimately have "real_of_int hv / real_of_int mx \<le> real_of_int (2 ^ 25) / real_of_int (2 ^ 1000)"
    using hv(1) by (intro frac_le) simp_all
  also have "\<dots> = real_of_int 1 * 2 powi (- 975)"
    by simp
  finally have "float_val p \<le> real_of_int 1 * 2 powi (- 975)"
    using mx0 by (intro percent_upper [OF p]) simp_all
  then have pv: "float_val p \<le> 2 powi (- 975)" by simp
  have lr: "real_of_int len \<le> real_of_int (2 ^ 25)"
    using len(2) by (simp only: of_int_le_iff)
  have "float_val l * float_val p \<le> real_of_int (2 ^ 25) * 2 powi (- 975)"
    unfolding lv using p0(2) by (intro mult_mono [OF lr pv]) simp_all
  also have "\<dots> \<le> 1 / 2" by simp
  finally have "float_val l * float_val p \<le> 1 / 2" .
  from float_mul_small [OF l0 p0(1) this] obtain q where "float_mul l p = Inr q"
    and "int_of_float q = 0" by blast
  then show ?thesis
    by (simp add: filled_length_def filled_length_of_def int_mul_float_def p l)
qed

lemma float_val_pos_fst:
  assumes "0 < float_val x"
  shows "0 < fst x"
proof -
  have p: "(0::real) < 2 powi (snd x)" by simp
  from assms have "0 < real_of_int (fst x) * 2 powi (snd x)" by (simp add: float_val_def)
  from this p have "0 < real_of_int (fst x)" by (rule zero_less_mult_pos2)
  then show ?thesis by simp
qed

lemma filled_length_near:
  assumes mx: "0 < mx" "mx \<le> 2 ^ 1000" and hv: "0 < hv" "hv \<le> 2 ^ 25"
    and len: "0 < len" "len \<le> 2 ^ 25"
  shows "\<exists>v. filled_length hv mx len = Inr \<lfloor>v\<rfloor>
           \<and> \<bar>v - real_of_int (len * hv) / real_of_int mx\<bar> < 1 / real_of_int mx"
proof -
  define x where "x = real_of_int hv / real_of_int mx"
  define X where "X = real_of_int len * x"
  have mxr: "0 < real_of_int mx" "real_of_int mx \<le> 2 ^ 1000"
  proof -
    show "0 < real_of_int mx" using mx(1) by simp
    have "real_of_int mx \<le> real_of_int (2 ^ 1000)" using mx(2) by (simp only: of_int_le_iff)
    then show "real_of_int mx \<le> 2 ^ 1000" by simp
  qed
  have hvr: "1 \<le> real_of_int hv" "real_of_int hv \<le> 2 ^ 25"
  proof -
    show "1 \<le> real_of_int hv" using hv(1) by linarith
    have "real_of_int hv \<le> real_of_int (2 ^ 25)" using hv(2) by (simp only: of_int_le_iff)
    then show "real_of_int hv \<le> 2 ^ 25" by simp
  qed
  have lenr: "1 \<le> real_of_int len" "real_of_int len \<le> 2 ^ 25"
  proof -
    show "1 \<le> real_of_int len" using len(1) by linarith
    have "real_of_int len \<le> real_of_int (2 ^ 25)" using len(2) by (simp only: of_int_le_iff)
    then show "real_of_int len \<le> 2 ^ 25" by simp
  qed
  have x_pos: "0 < x" using hvr mxr by (simp add: x_def)
  have x_up: "x \<le> 2 ^ 25"
  proof -
    have "x \<le> real_of_int hv / 1"
      unfolding x_def using mx(1) hvr by (intro divide_left_mono) simp_all
    with hvr(2) show ?thesis by simp
  qed
  have x_low: "1 / 2 ^ 1000 \<le> x"
  proof -
    have "1 / 2 ^ 1000 \<le> 1 / real_of_int mx"
      using mxr by (intro divide_left_mono) simp_all
    also have "\<dots> \<le> x"
      unfolding x_def using hvr(1) mxr(1) by (intro divide_right_mono) simp_all
    finally show ?thesis .
  qed
  have x_normal: "2 powi (- 1021) \<le> x"
  proof -
    have "(2::real) powi (- 1021) \<le> 1 / 2 ^ 1000" by simp
    then show ?thesis using x_low by linarith
  qed
  text \<open>the quotient\<close>
  have "\<bar>hv\<bar> \<le> 2 ^ 1023" using hv by simp
  with mx(1) obtain p where p: "int_truediv hv mx = Inr p"
    using int_truediv_ok [of mx hv] by auto
  then have nd: "nearest_double hv mx = Inr p"
    using mx(1) by (simp add: int_truediv_def)
  with hv(1) nearest_double_cases [OF nd] have p_eq: "p = round_to_double hv mx" by auto
  define a where "a = float_val p"
  have ea: "\<bar>a - x\<bar> \<le> x / 2 ^ 53"
    unfolding a_def p_eq x_def using x_normal
    by (intro round_to_double_rel_error [OF hv(1) mx(1)]) (simp add: x_def)
  have "x / 2 ^ 53 \<le> x / 2" using x_pos by (intro divide_left_mono) simp_all
  with ea have "\<bar>a - x\<bar> \<le> x / 2" by (rule order_trans)
  then have a_low: "x / 2 \<le> a" and a_up: "a \<le> 2 * x"
    using x_pos by linarith+
  have a_pos: "0 < a" using a_low x_pos by linarith
  then have p_pos: "0 < fst p" unfolding a_def by (rule float_val_pos_fst)
  text \<open>the length\<close>
  have "0 \<le> len" "len \<le> 2 ^ 53" using len by simp_all
  from float_of_int_exact [OF this] obtain l where l: "float_of_int len = Inr l"
    and lv: "float_val l = real_of_int len" by blast
  have "0 < float_val l" using lv lenr by simp
  then have l_pos: "0 < fst l" by (rule float_val_pos_fst)
  text \<open>the product\<close>
  define N where "N = fst l * fst p * 2 ^ nat (snd l + snd p)"
  define D where "D = (2::int) ^ nat (- (snd l + snd p))"
  define y where "y = real_of_int len * a"
  have D: "0 < D" by (simp add: D_def)
  have N: "0 < N" using l_pos p_pos by (simp add: N_def)
  have ratio: "real_of_int N / real_of_int D = y"
    unfolding N_def D_def y_def a_def lv [symmetric] by (rule float_mul_val)
  have mul: "float_mul l p = nearest_double N D"
    by (simp add: float_mul_nearest N_def D_def)
  have y_up: "y \<le> 2 ^ 51"
  proof -
    have "a \<le> 2 ^ 26" using a_up x_up by simp
    then have "real_of_int len * a \<le> 2 ^ 25 * 2 ^ 26"
      using lenr a_pos by (intro mult_mono) simp_all
    then show ?thesis by (simp add: y_def)
  qed
  have y_low: "a \<le> y"
    unfolding y_def using lenr(1) a_pos by (simp add: mult_le_cancel_right1)
  have y_normal: "2 powi (- 1021) \<le> real_of_int N / real_of_int D"
  proof -
    have "(2::real) powi (- 1021) \<le> (1 / 2 ^ 1000) / 2" by simp
    also have "\<dots> \<le> x / 2" using x_low by simp
    also have "\<dots> \<le> y" using a_low y_low by linarith
    finally show ?thesis by (simp only: ratio)
  qed
  have "\<bar>real_of_int N\<bar> / real_of_int D \<le> 2 ^ 1023"
  proof -
    have "\<bar>real_of_int N\<bar> / real_of_int D = y"
      using N ratio by simp
    also have "\<dots> \<le> 2 ^ 1023" using y_up by simp
    finally show ?thesis .
  qed
  from nearest_double_ok [OF D this] obtain q where q: "nearest_double N D = Inr q" by auto
  with N nearest_double_cases [OF q] have q_eq: "q = round_to_double N D" by auto
  define v where "v = float_val q"
  have ev: "\<bar>v - y\<bar> \<le> y / 2 ^ 53"
    unfolding v_def q_eq using round_to_double_rel_error [OF N D y_normal]
    by (simp only: ratio)
  have q0: "0 \<le> fst q" using N by (intro nearest_double_sign(1) [OF q D]) simp
  have f: "filled_length hv mx len = Inr \<lfloor>v\<rfloor>"
    by (simp add: filled_length_def filled_length_of_def int_mul_float_def p l mul q
        int_of_float_floor [OF q0] v_def)
  text \<open>the error of the two roundings\<close>
  have X_pos: "0 < X" using x_pos lenr by (simp add: X_def)
  have yX: "\<bar>y - X\<bar> \<le> X / 2 ^ 53"
  proof -
    have "y - X = real_of_int len * (a - x)" by (simp add: y_def X_def algebra_simps)
    then have "\<bar>y - X\<bar> = real_of_int len * \<bar>a - x\<bar>"
      using lenr by (simp add: abs_mult)
    also have "\<dots> \<le> real_of_int len * (x / 2 ^ 53)"
      using ea lenr by (intro mult_left_mono) simp_all
    finally show ?thesis by (simp add: X_def)
  qed
  have "X / 2 ^ 53 \<le> X / 1" using X_pos by (intro divide_left_mono) simp_all
  then have "X / 2 ^ 53 \<le> X" by simp
  with yX have "\<bar>y - X\<bar> \<le> X" by (rule order_trans)
  then have y2: "y \<le> 2 * X" by linarith
  have "y / 2 ^ 53 \<le> (2 * X) / 2 ^ 53"
    using y2 by (intro divide_right_mono) simp_all
  with ev have vy: "\<bar>v - y\<bar> \<le> (2 * X) / 2 ^ 53" by linarith
  have "\<bar>v - X\<bar> \<le> \<bar>v - y\<bar> + \<bar>y - X\<bar>" by linarith
  with vy yX have vX: "\<bar>v - X\<bar> \<le> 3 * X / 2 ^ 53" by linarith
  have Xeq: "X = real_of_int (len * hv) / real_of_int mx"
    by (simp add: X_def x_def)
  have "real_of_int (len * hv) \<le> 2 ^ 25 * 2 ^ 25"
    using lenr hvr by (simp only: of_int_mult) (intro mult_mono, simp_all)
  then have K: "real_of_int (len * hv) \<le> 2 ^ 50" by simp
  have "3 * X / 2 ^ 53 = (3 * real_of_int (len * hv) / 2 ^ 53) / real_of_int mx"
    by (simp add: Xeq)
  also have "\<dots> < 1 / real_of_int mx"
  proof -
    have "3 * real_of_int (len * hv) / 2 ^ 53 < 1" using K by simp
    then show ?thesis using mxr(1) by (rule divide_strict_right_mono)
  qed
  finally have "\<bar>v - X\<bar> < 1 / real_of_int mx" using vX by linarith
  with f show ?thesis unfolding Xeq by blast
qed

lemma filled_length_floor:
  assumes mx: "0 < mx" and hv: "0 \<le> hv" "hv \<le> 2 ^ 25" and len: "0 \<le> len" "len \<le> 2 ^ 25"
  shows "\<exists>f. filled_length hv mx len = Inr f
           \<and> (len * hv) div mx - 1 \<le> f \<and> f \<le> (len * hv) div mx
           \<and> ((len * hv) mod mx \<noteq> 0 \<longrightarrow> f = (len * hv) div mx)"
proof -
  have K0: "0 \<le> len * hv" using hv len by simp
  consider (tiny) "2 ^ 1000 < mx" | (zero) "mx \<le> 2 ^ 1000" "hv = 0 \<or> len = 0"
    | (main) "mx \<le> 2 ^ 1000" "0 < hv" "0 < len"
    using hv(1) len(1) by linarith
  then show ?thesis
  proof cases
    case tiny
    have f: "filled_length hv mx len = Inr 0"
      by (rule filled_length_tiny [OF tiny hv len])
    have "len * hv \<le> 2 ^ 25 * 2 ^ 25"
      using hv len by (intro mult_mono) simp_all
    then have "len * hv < mx" using tiny by simp
    with K0 have "(len * hv) div mx = 0" by (simp add: div_pos_pos_trivial)
    with f show ?thesis by simp
  next
    case zero
    have "\<bar>hv\<bar> \<le> 2 ^ 1023" using hv by simp
    with mx obtain p where p: "int_truediv hv mx = Inr p"
      using int_truediv_ok [of mx hv] by auto
    have "len \<le> 2 ^ 53" using len(2) by simp
    from float_of_int_exact [OF len(1) this] obtain l where l: "float_of_int len = Inr l"
      and lv: "float_val l = real_of_int len" by blast
    have "fst p = 0 \<or> fst l = 0"
    proof (cases "hv = 0")
      case True
      with p mx have "p = (0, 0)" by (simp add: int_truediv_def nearest_double_def)
      then show ?thesis by simp
    next
      case False
      with zero have "len = 0" by simp
      with lv have "float_val l = 0" by simp
      then show ?thesis by (simp add: float_zero_fst)
    qed
    from filled_length_empty [OF p l this] have f: "filled_length hv mx len = Inr 0" .
    from zero(2) have "(len * hv) div mx = 0" and "(len * hv) mod mx = 0" by auto
    with f show ?thesis by simp
  next
    case main
    from filled_length_near [OF mx main(1) main(2) hv(2) main(3) len(2)]
    obtain v where f: "filled_length hv mx len = Inr \<lfloor>v\<rfloor>"
      and near: "\<bar>v - real_of_int (len * hv) / real_of_int mx\<bar> < 1 / real_of_int mx"
      by blast
    from floor_near [OF mx K0 near] f show ?thesis by simp
  qed
qed

lemma bar_color_float:
  assumes "int_truediv hv mx = Inr p"
  shows "bar_color hv mx = Inr (if float_val p < 1 / 4 then Fore_RED
                                else if float_val p < 1 / 2 then Fore_YELLOW else Fore_GREEN)"
  using assms
  by (simp add: bar_color_def bar_color_of_def Let_def float_less_iff float_val_half
      float_val_quarter)

lemma spec_severity_int:
  assumes "0 < mx"
  shows "spec_severity hv mx
         = (if 4 * hv < mx then Critical else if 2 * hv < mx then Warning else Normal)"
proof -
  have mxr: "0 < real_of_int mx" using assms by simp
  have q: "(real_of_int hv / real_of_int mx < 1 / 4) = (4 * hv < mx)"
  proof -
    have "(real_of_int hv / real_of_int mx < 1 / 4) = (real_of_int (4 * hv) < real_of_int mx)"
      using mxr by (simp add: field_simps)
    also have "\<dots> = (4 * hv < mx)" by (simp only: of_int_less_iff)
    finally show ?thesis .
  qed
  have h: "(real_of_int hv / real_of_int mx < 1 / 2) = (2 * hv < mx)"
  proof -
    have "(real_of_int hv / real_of_int mx < 1 / 2) = (real_of_int (2 * hv) < real_of_int mx)"
      using mxr by (simp add: field_simps)
    also have "\<dots> = (2 * hv < mx)" by (simp only: of_int_less_iff)
    finally show ?thesis .
  qed
  show ?thesis by (simp only: spec_severity_def Let_def q h)
qed

lemma bar_color_exact:
  assumes mx: "0 < mx" "mx \<le> 2 ^ 53" and hv: "\<bar>hv\<bar> \<le> 2 ^ 1023"
  shows "bar_color hv mx = Inr (severity_color (spec_severity hv mx))"
proof -
  from mx(1) hv obtain p where p: "int_truediv hv mx = Inr p"
    using int_truediv_ok [of mx hv] by auto
  have "bar_color hv mx = Inr (bar_color_of p)"
    by (simp add: bar_color_def p)
  also have "bar_color_of p = (if 4 * hv < mx then Fore_RED
                               else if 2 * hv < mx then Fore_YELLOW else Fore_GREEN)"
    by (simp add: bar_color_of_def Let_def percent_less_half [OF p mx]
        percent_less_quarter [OF p mx])
  also have "\<dots> = severity_color (spec_severity hv mx)"
    by (simp add: spec_severity_int [OF mx(1)])
  finally show ?thesis .
qed

lemma bar_color_cases:
  assumes "bar_color hv mx = Inr c"
  shows "c = Fore_GREEN \<or> c = Fore_YELLOW \<or> c = Fore_RED"
  using assms bar_color_of_cases by (auto simp: bar_color_def split: sum.splits)

lemma get_health_bar_plain:
  assumes c: "bar_color hv mx = Inr c" and f: "filled_length hv mx len = Inr f"
  shows "get_health_bar hv mx len
         = Inr ([91] @ c @ replicate (nat f) 9608 @ Style_RESET_ALL
                @ replicate (nat (len - f)) 9472 @ [93, 32] @ str_int hv @ [47] @ str_int mx)"
    and "map_sum id strip_ansi (get_health_bar hv mx len)
         = Inr ([91] @ replicate (nat f) 9608 @ replicate (nat (len - f)) 9472
                @ [93, 32] @ str_int hv @ [47] @ str_int mx)"
proof -
  show g: "get_health_bar hv mx len
         = Inr ([91] @ c @ replicate (nat f) 9608 @ Style_RESET_ALL
                @ replicate (nat (len - f)) 9472 @ [93, 32] @ str_int hv @ [47] @ str_int mx)"
    by (simp add: get_health_bar_eq c f)
  show "map_sum id strip_ansi (get_health_bar hv mx len)
         = Inr ([91] @ replicate (nat f) 9608 @ replicate (nat (len - f)) 9472
                @ [93, 32] @ str_int hv @ [47] @ str_int mx)"
    unfolding g using strip_ansi_bar [OF bar_color_cases [OF c]] by simp
qed

lemma filled_length_full:
  assumes mx: "0 < mx" and len: "0 \<le> len" "len \<le> 2 ^ 53"
  shows "filled_length mx mx len = Inr len"
proof -
  from unit_percent [OF mx _ order_refl] mx obtain p where p: "int_truediv mx mx = Inr p"
    and p0: "0 \<le> fst p" by auto
  then have nd: "nearest_double mx mx = Inr p" using mx by (simp add: int_truediv_def)
  have "real_of_int mx / real_of_int mx = real_of_int 1 * 2 powi 0" using mx by simp
  from nearest_double_exact [OF nd mx _ _ _ this] have pv: "float_val p = 1" by simp
  from float_of_int_exact [OF len] obtain l where l: "float_of_int len = Inr l"
    and lv: "float_val l = real_of_int len" and l0: "0 \<le> fst l" by blast
  let ?N = "fst l * fst p * 2 ^ nat (snd l + snd p)" and ?D = "(2::int) ^ nat (- (snd l + snd p))"
  have D: "0 < ?D" by simp
  have N: "0 \<le> ?N" using l0 p0 by simp
  have ratio: "real_of_int ?N / real_of_int ?D = real_of_int len * 2 powi 0"
    by (simp only: float_mul_val lv pv) simp
  have "float_val l * float_val p \<le> real_of_int len" by (simp add: lv pv)
  from float_mul_bounded [OF l0 p0 len this] obtain q where q: "float_mul l p = Inr q"
    and q0: "0 \<le> fst q" by blast
  then have "nearest_double ?N ?D = Inr q" by (simp add: float_mul_nearest)
  from nearest_double_exact [OF this D len _ ratio] have "float_val q = real_of_int len" by simp
  with int_of_float_floor [OF q0] have "int_of_float q = len" by simp
  then show ?thesis
    by (simp add: filled_length_def filled_length_of_def int_mul_float_def p l q)
qed

lemma str_int_values:
  "str_int 0 = [48]" "str_int 50 = [53, 48]" "str_int 100 = [49, 48, 48]"
  by (simp_all add: str_int_def digits.simps)

lemma concrete_filled:
  "filled_length 100 100 10 = Inr 10" "filled_length 50 100 10 = Inr 5"
  "filled_length 0 100 10 = Inr 0" "filled_length 150 100 10 = Inr 15"
  "filled_length 29 100 100 = Inr 28" "filled_length (- 55) 100 10 = Inr (- 5)"
  by code_simp+

lemma concrete_color:
  "bar_color 100 100 = Inr Fore_GREEN" "bar_color 50 100 = Inr Fore_GREEN"
  "bar_color 0 100 = Inr Fore_RED" "bar_color 150 100 = Inr Fore_GREEN"
  "bar_color 18014398509481983 36028797018963968 = Inr Fore_GREEN"
  by code_simp+

lemma concrete_bars:
  "map_sum id strip_ansi (get_health_bar 100 100 10)
   = Inr ([91] @ replicate 10 9608 @ [93, 32] @ [49, 48, 48] @ [47] @ [49, 48, 48])"
  "map_sum id strip_ansi (get_health_bar 50 100 10)
   = Inr ([91] @ replicate 5 9608 @ replicate 5 9472 @ [93, 32] @ [53, 48] @ [47] @ [49, 48, 48])"
  "map_sum id strip_ansi (get_health_bar 0 100 10)
   = Inr ([91] @ replicate 10 9472 @ [93, 32] @ [48] @ [47] @ [49, 48, 48])"
  using get_health_bar_plain(2) [OF concrete_color(1) concrete_filled(1)]
    get_health_bar_plain(2) [OF concrete_color(2) concrete_filled(2)]
    get_health_bar_plain(2) [OF concrete_color(3) concrete_filled(3)]
  by (simp_all add: str_int_values)

lemma spec_severity_big: "spec_severity 18014398509481983 36028797018963968 = Warning"
  by (simp add: spec_severity_def)

lemma spec_filled_values: "spec_filled_length 150 100 10 = 10" "spec_filled_length 29 100 100 = 29"
  by (simp_all add: spec_filled_length_def)

text \<open>
  C6, as stated, fails in two ways. There is no clamp: with health 150 of 100 and length
  10 the fill is 15, where the specification's formula gives 10, and the bar shows 15
  filled glyphs. And the fill is computed in floating point: with health 29 of 100 and
  length 100 it is 28, where \<open>floor (100 * 29 / 100)\<close> is 29.
\<close>

theorem C6_fill_counterexample:
  "filled_length 150 100 10 = Inr 15
   \<and> spec_filled_length 150 100 10 = 10
   \<and> map_sum id strip_ansi (get_health_bar 150 100 10)
       = Inr ([91] @ replicate 15 9608 @ [93, 32] @ [49, 53, 48] @ [47] @ [49, 48, 48])
   \<and> filled_length 29 100 100 = Inr 28
   \<and> spec_filled_length 29 100 100 = 29"
proof -
  have "str_int 150 = [49, 53, 48]"
    by (simp add: str_int_def digits.simps)
  with get_health_bar_plain(2) [OF concrete_color(4) concrete_filled(4)]
  have "map_sum id strip_ansi (get_health_bar 150 100 10)
       = Inr ([91] @ replicate 15 9608 @ [93, 32] @ [49, 53, 48] @ [47] @ [49, 48, 48])"
    by (simp add: str_int_values)
  with concrete_filled(4,5) spec_filled_values show ?thesis by simp
qed

text \<open>
  C6, amended. Let a call \<^verbatim>\<open>get_health_bar(h, mx, len)\<close> have the colour \<open>c\<close>
  and the fill \<open>f\<close>, where \<open>f\<close> is \<^verbatim>\<open>int(len * (h / mx))\<close> computed in
  double precision, truncated toward zero and not clamped.
  \<^item> The result is \<^verbatim>\<open>[\<close>, the colour code, \<open>f\<close> filled glyphs, the reset code,
    \<open>len - f\<close> empty glyphs, \<^verbatim>\<open>]\<close>, a space and the label \<^verbatim>\<open>h/mx\<close>, a negative
    count giving no glyph; without the colour codes it is the bracketed glyphs and the
    label.
  \<^item> For \<open>0 \<le> h \<le> mx\<close>, \<open>0 < mx\<close> and \<open>0 \<le> len \<le> 2 ^ 53\<close> the call returns and
    \<open>0 \<le> f \<le> len\<close>; at full health \<open>f = len\<close>.
  \<^item> For \<open>0 < mx\<close>, \<open>0 \<le> h \<le> 2 ^ 25\<close> and \<open>0 \<le> len \<le> 2 ^ 25\<close> the fill is
    \<open>floor (len * h / mx)\<close> or one less, and it is \<open>floor (len * h / mx)\<close> whenever
    \<open>len * h\<close> is not a multiple of \<open>mx\<close>; with \<open>h \<le> mx\<close> besides, that is the
    specification's clamped value.
  \<^item> The length is 20 when the caller gives none.
  \<^item> \<open>(100, 100, 10)\<close> gives 10 filled glyphs and \<^verbatim>\<open>100/100\<close>, \<open>(50, 100, 10)\<close>
    gives 5 filled, 5 empty and \<^verbatim>\<open>50/100\<close>, \<open>(0, 100, 10)\<close> gives 10 empty glyphs
    and \<^verbatim>\<open>0/100\<close>.
\<close>

theorem C6_health_bar:
  "(bar_color h mx = Inr c \<and> filled_length h mx len = Inr f \<longrightarrow>
      get_health_bar h mx len
        = Inr ([91] @ c @ replicate (nat f) 9608 @ Style_RESET_ALL
               @ replicate (nat (len - f)) 9472 @ [93, 32] @ str_int h @ [47] @ str_int mx)
      \<and> map_sum id strip_ansi (get_health_bar h mx len)
        = Inr ([91] @ replicate (nat f) 9608 @ replicate (nat (len - f)) 9472
               @ [93, 32] @ str_int h @ [47] @ str_int mx))
   \<and> (0 < mx \<and> 0 \<le> h \<and> h \<le> mx \<and> 0 \<le> len \<and> len \<le> 2 ^ 53 \<longrightarrow>
        (\<exists>f'. filled_length h mx len = Inr f' \<and> 0 \<le> f' \<and> f' \<le> len)
        \<and> filled_length mx mx len = Inr len)
   \<and> (0 < mx \<and> 0 \<le> h \<and> h \<le> 2 ^ 25 \<and> 0 \<le> len \<and> len \<le> 2 ^ 25 \<longrightarrow>
        (\<exists>f'. filled_length h mx len = Inr f'
           \<and> (len * h) div mx - 1 \<le> f' \<and> f' \<le> (len * h) div mx
           \<and> ((len * h) mod mx \<noteq> 0 \<longrightarrow> f' = (len * h) div mx)
           \<and> ((len * h) mod mx \<noteq> 0 \<and> h \<le> mx \<longrightarrow> f' = spec_filled_length h mx len)))
   \<and> get_health_bar_default h mx = get_health_bar h mx 20
   \<and> filled_length 100 100 10 = Inr 10
   \<and> map_sum id strip_ansi (get_health_bar 100 100 10)
       = Inr ([91] @ replicate 10 9608 @ [93, 32] @ [49, 48, 48] @ [47] @ [49, 48, 48])
   \<and> filled_length 50 100 10 = Inr 5
   \<and> map_sum id strip_ansi (get_health_bar 50 100 10)
       = Inr ([91] @ replicate 5 9608 @ replicate 5 9472 @ [93, 32] @ [53, 48] @ [47]
              @ [49, 48, 48])
   \<and> filled_length 0 100 10 = Inr 0
   \<and> map_sum id strip_ansi (get_health_bar 0 100 10)
       = Inr ([91] @ replicate 10 9472 @ [93, 32] @ [48] @ [47] @ [49, 48, 48])"
proof -
  have shape: "bar_color h mx = Inr c \<and> filled_length h mx len = Inr f \<longrightarrow>
      get_health_bar h mx len
        = Inr ([91] @ c @ replicate (nat f) 9608 @ Style_RESET_ALL
               @ replicate (nat (len - f)) 9472 @ [93, 32] @ str_int h @ [47] @ str_int mx)
      \<and> map_sum id strip_ansi (get_health_bar h mx len)
        = Inr ([91] @ replicate (nat f) 9608 @ replicate (nat (len - f)) 9472
               @ [93, 32] @ str_int h @ [47] @ str_int mx)"
  proof (intro impI conjI)
    assume a: "bar_color h mx = Inr c \<and> filled_length h mx len = Inr f"
    then have c: "bar_color h mx = Inr c" and f: "filled_length h mx len = Inr f"
      by simp_all
    show "get_health_bar h mx len
        = Inr ([91] @ c @ replicate (nat f) 9608 @ Style_RESET_ALL
               @ replicate (nat (len - f)) 9472 @ [93, 32] @ str_int h @ [47] @ str_int mx)"
      by (rule get_health_bar_plain(1) [OF c f])
    show "map_sum id strip_ansi (get_health_bar h mx len)
        = Inr ([91] @ replicate (nat f) 9608 @ replicate (nat (len - f)) 9472
               @ [93, 32] @ str_int h @ [47] @ str_int mx)"
      by (rule get_health_bar_plain(2) [OF c f])
  qed
  have inrange: "0 < mx \<and> 0 \<le> h \<and> h \<le> mx \<and> 0 \<le> len \<and> len \<le> 2 ^ 53 \<longrightarrow>
        (\<exists>f'. filled_length h mx len = Inr f' \<and> 0 \<le> f' \<and> f' \<le> len)
        \<and> filled_length mx mx len = Inr len"
  proof (intro impI conjI)
    assume a: "0 < mx \<and> 0 \<le> h \<and> h \<le> mx \<and> 0 \<le> len \<and> len \<le> 2 ^ 53"
    then show "\<exists>f'. filled_length h mx len = Inr f' \<and> 0 \<le> f' \<and> f' \<le> len"
      by (intro filled_length_in_range) simp_all
    from a show "filled_length mx mx len = Inr len"
      by (intro filled_length_full) simp_all
  qed
  have nearfloor: "0 < mx \<and> 0 \<le> h \<and> h \<le> 2 ^ 25 \<and> 0 \<le> len \<and> len \<le> 2 ^ 25 \<longrightarrow>
        (\<exists>f'. filled_length h mx len = Inr f'
           \<and> (len * h) div mx - 1 \<le> f' \<and> f' \<le> (len * h) div mx
           \<and> ((len * h) mod mx \<noteq> 0 \<longrightarrow> f' = (len * h) div mx)
           \<and> ((len * h) mod mx \<noteq> 0 \<and> h \<le> mx \<longrightarrow> f' = spec_filled_length h mx len))"
  proof
    assume pre: "0 < mx \<and> 0 \<le> h \<and> h \<le> 2 ^ 25 \<and> 0 \<le> len \<and> len \<le> 2 ^ 25"
    then have "\<exists>f'. filled_length h mx len = Inr f'
           \<and> (len * h) div mx - 1 \<le> f' \<and> f' \<le> (len * h) div mx
           \<and> ((len * h) mod mx \<noteq> 0 \<longrightarrow> f' = (len * h) div mx)"
      by (intro filled_length_floor) simp_all
    then obtain f' where f': "filled_length h mx len = Inr f'"
      and b1: "(len * h) div mx - 1 \<le> f'" and b2: "f' \<le> (len * h) div mx"
      and e: "(len * h) mod mx \<noteq> 0 \<longrightarrow> f' = (len * h) div mx"
      by (elim exE conjE)
    have sp: "(len * h) mod mx \<noteq> 0 \<and> h \<le> mx \<longrightarrow> f' = spec_filled_length h mx len"
    proof
      assume a: "(len * h) mod mx \<noteq> 0 \<and> h \<le> mx"
      then have "len * h \<le> len * mx" using pre by (simp add: mult_left_mono)
      then have "(len * h) div mx \<le> (len * mx) div mx"
        using pre by (intro zdiv_mono1) simp_all
      then have up: "(len * h) div mx \<le> len" using pre by simp
      have "0 \<le> len * h" using pre by simp
      then have "0 \<le> (len * h) div mx"
        using pre by (simp add: pos_imp_zdiv_nonneg_iff)
      with up e a show "f' = spec_filled_length h mx len"
        by (simp add: spec_filled_length_def)
    qed
    show "\<exists>f'. filled_length h mx len = Inr f'
           \<and> (len * h) div mx - 1 \<le> f' \<and> f' \<le> (len * h) div mx
           \<and> ((len * h) mod mx \<noteq> 0 \<longrightarrow> f' = (len * h) div mx)
           \<and> ((len * h) mod mx \<noteq> 0 \<and> h \<le> mx \<longrightarrow> f' = spec_filled_length h mx len)"
      by (intro exI [of _ f'] conjI) (rule f' b1 b2 e sp)+
  qed
  have default: "get_health_bar_default h mx = get_health_bar h mx 20"
    by (simp add: get_health_bar_default_def)
  show ?thesis
    by (intro conjI)
      (rule shape inrange nearfloor default concrete_filled(1) concrete_bars(1)
        concrete_filled(2) concrete_bars(2) concrete_filled(3) concrete_bars(3))+
qed

theorem C6_health_bar_witness:
  "bar_color 50 100 = Inr Fore_GREEN \<and> filled_length 50 100 10 = Inr 5
   \<and> get_health_bar 50 100 10
       = Inr ([91] @ Fore_GREEN @ replicate 5 9608 @ Style_RESET_ALL @ replicate 5 9472
              @ [93, 32] @ [53, 48] @ [47] @ [49, 48, 48])
   \<and> (0::int) < 100 \<and> (0::int) \<le> 50 \<and> (50::int) \<le> 100 \<and> (0::int) \<le> 10
   \<and> (10::int) \<le> 2 ^ 53 \<and> (50::int) \<le> 2 ^ 25 \<and> (10::int) \<le> 2 ^ 25
   \<and> filled_length 100 100 10 = Inr 10
   \<and> (10 * 50) div 100 = (5::int) \<and> (10 * 50) mod 100 = (0::int)
   \<and> (0::int) < 3 \<and> (0::int) \<le> 1 \<and> (1::int) \<le> 2 ^ 25 \<and> (1::int) \<le> 3
   \<and> (10 * 1) mod 3 \<noteq> (0::int)
   \<and> filled_length 1 3 10 = Inr 3 \<and> spec_filled_length 1 3 10 = 3"
proof -
  have f: "filled_length 1 3 10 = Inr 3"
    by code_simp
  have s: "spec_filled_length 1 3 10 = 3"
    by (simp add: spec_filled_length_def)
  show ?thesis
    using C6_health_bar [of 50 100 Fore_GREEN 10 5] C6_health_bar [of 1 3 Fore_YELLOW 10 3]
      concrete_color(2) concrete_filled(1,2) f s
    by (simp add: str_int_values)
qed

text \<open>
  C7, as stated, fails for large numbers: the classification compares the rounded
  quotient. Health \<open>2 ^ 54 - 1\<close> of \<open>2 ^ 55\<close> is a ratio below 0.5, a warning by the
  specification, but the quotient rounds to 0.5 and the bar is green.
\<close>

theorem C7_rounding_counterexample:
  "bar_color 18014398509481983 36028797018963968 = Inr Fore_GREEN
   \<and> spec_severity 18014398509481983 36028797018963968 = Warning
   \<and> severity_color Warning \<noteq> Fore_GREEN"
  using concrete_color(5) spec_severity_big
  by (simp add: Fore_GREEN_def Fore_YELLOW_def)

text \<open>
  C7, amended. For \<open>0 < mx \<le> 2 ^ 53\<close> and \<open>\<bar>h\<bar> \<le> 2 ^ 1023\<close> the call returns and
  the colour is that of the specification's severity of the ratio \<open>h / mx\<close>: green from
  0.5, yellow from 0.25 up to 0.5, red below 0.25. In general the colour is decided in the
  same way by the double nearest to \<open>h / mx\<close>. The colour is one of the three codes; it
  enters the result only as the colour code after the opening bracket, and the result
  without its colour codes (glyph counts and label) does not depend on it. The function
  returns a string and changes no health value.
\<close>

theorem C7_severity:
  "(0 < mx \<and> mx \<le> 2 ^ 53 \<and> \<bar>h\<bar> \<le> 2 ^ 1023 \<longrightarrow>
      bar_color h mx = Inr (severity_color (spec_severity h mx)))
   \<and> (int_truediv h mx = Inr p \<longrightarrow>
        bar_color h mx = Inr (if float_val p < 1 / 4 then Fore_RED
                              else if float_val p < 1 / 2 then Fore_YELLOW else Fore_GREEN))
   \<and> (bar_color h mx = Inr c \<and> filled_length h mx len = Inr f \<longrightarrow>
        (c = Fore_GREEN \<or> c = Fore_YELLOW \<or> c = Fore_RED)
        \<and> get_health_bar h mx len
            = Inr ([91] @ c @ replicate (nat f) 9608 @ Style_RESET_ALL
                   @ replicate (nat (len - f)) 9472 @ [93, 32] @ str_int h @ [47] @ str_int mx)
        \<and> map_sum id strip_ansi (get_health_bar h mx len)
            = Inr ([91] @ replicate (nat f) 9608 @ replicate (nat (len - f)) 9472
                   @ [93, 32] @ str_int h @ [47] @ str_int mx))"
proof (intro conjI impI)
  show "bar_color h mx = Inr (severity_color (spec_severity h mx))"
    if "0 < mx \<and> mx \<le> 2 ^ 53 \<and> \<bar>h\<bar> \<le> 2 ^ 1023"
    using that by (intro bar_color_exact) simp_all
  show "bar_color h mx = Inr (if float_val p < 1 / 4 then Fore_RED
                              else if float_val p < 1 / 2 then Fore_YELLOW else Fore_GREEN)"
    if "int_truediv h mx = Inr p"
    using that by (rule bar_color_float)
  assume a: "bar_color h mx = Inr c \<and> filled_length h mx len = Inr f"
  then show "c = Fore_GREEN \<or> c = Fore_YELLOW \<or> c = Fore_RED"
    using bar_color_cases [of h mx c] by simp
  from a show "get_health_bar h mx len
            = Inr ([91] @ c @ replicate (nat f) 9608 @ Style_RESET_ALL
                   @ replicate (nat (len - f)) 9472 @ [93, 32] @ str_int h @ [47] @ str_int mx)"
    using get_health_bar_plain(1) [of h mx c len f] by simp
  from a show "map_sum id strip_ansi (get_health_bar h mx len)
            = Inr ([91] @ replicate (nat f) 9608 @ replicate (nat (len - f)) 9472
                   @ [93, 32] @ str_int h @ [47] @ str_int mx)"
    using get_health_bar_plain(2) [of h mx c len f] by simp
qed

theorem C7_severity_witness:
  "(0::int) < 100 \<and> (100::int) \<le> 2 ^ 53 \<and> \<bar>30::int\<bar> \<le> 2 ^ 1023
   \<and> spec_severity 30 100 = Warning
   \<and> bar_color 30 100 = Inr Fore_YELLOW
   \<and> int_truediv 30 100 = Inr (5404319552844595, - 54)
   \<and> filled_length 30 100 10 = Inr 3
   \<and> get_health_bar 30 100 10
       = Inr ([91] @ Fore_YELLOW @ replicate 3 9608 @ Style_RESET_ALL @ replicate 7 9472
              @ [93, 32] @ [51, 48] @ [47] @ [49, 48, 48])"
proof -
  have s: "spec_severity 30 100 = Warning"
    by (simp add: spec_severity_def)
  have p: "int_truediv 30 100 = Inr (5404319552844595, - 54)"
    by code_simp
  have f: "filled_length 30 100 10 = Inr 3"
    by code_simp
  have d: "str_int 30 = [51, 48]"
    by (simp add: str_int_def digits.simps)
  have c: "bar_color 30 100 = Inr Fore_YELLOW"
    using C7_severity [of 100 30 "(5404319552844595, - 54)" Fore_YELLOW 10 3] s by simp
  show ?thesis
    using C7_severity [of 100 30 "(5404319552844595, - 54)" Fore_YELLOW 10 3] s p f c d
    by (simp add: str_int_values)
qed

section \<open>The status display during the battle\<close>

lemma get_health_bar_default_ok:
  assumes "0 < mx" and "0 \<le> h" and "h \<le> mx"
  shows "\<exists>bar. get_health_bar_default h mx = Inr bar"
proof -
  from unit_percent [OF assms] obtain p where "int_truediv h mx = Inr p" by blast
  then have c: "bar_color h mx = Inr (bar_color_of p)" by (simp add: bar_color_def)
  have "\<exists>f. filled_length h mx 20 = Inr f \<and> 0 \<le> f \<and> f \<le> 20"
    using assms by (intro filled_length_in_range) simp_all
  then obtain f where f: "filled_length h mx 20 = Inr f" by blast
  show ?thesis
    by (simp add: get_health_bar_default_def get_health_bar_plain(1) [OF c f])
qed

lemma display_status_ok:
  assumes "well_formed (s player)" and "well_formed (s enemy)"
  shows "\<exists>bars. display_status s = Inr bars"
proof -
  from assms(1) obtain pb where "get_health_bar_default (hp (s player)) (max_hp (s player)) = Inr pb"
    using get_health_bar_default_ok [of "max_hp (s player)" "hp (s player)"]
    by (auto simp: well_formed_def)
  moreover from assms(2) obtain eb
    where "get_health_bar_default (hp (s enemy)) (max_hp (s enemy)) = Inr eb"
    using get_health_bar_default_ok [of "max_hp (s enemy)" "hp (s enemy)"]
    by (auto simp: well_formed_def)
  ultimately show ?thesis by (simp add: display_status_def)
qed

lemma attack_well_formed:
  assumes "well_formed (s a)" and "well_formed (s r)"
  shows "well_formed (snd (attack a t s) r)"
  using assms by (cases "r = t") (auto simp: well_formed_def attack_def Let_def)

lemma heal_well_formed:
  assumes "d \<in> randint_range" and "well_formed (s r)"
  shows "well_formed (snd (heal d c s) r)"
  using assms by (cases "r = c") (auto simp: well_formed_def heal_def Let_def randint_range_def)

lemma player_acts_well_formed:
  assumes "d \<in> randint_range" and "well_formed (objs b player)" and "well_formed (objs b enemy)"
  shows "well_formed (objs (player_acts act d b) r)"
proof -
  have r: "well_formed (objs b r)" using assms(2,3) by (cases r) simp_all
  show ?thesis
  proof (cases act)
    case Attack
    then show ?thesis
      using attack_well_formed [of "objs b" player r enemy] assms(2) r
      by (simp add: player_acts_Attack)
  next
    case Heal
    then show ?thesis
      using heal_well_formed [of d "objs b" r player] assms(1) r
      by (simp add: player_acts_Heal)
  qed
qed

lemma enemy_acts_well_formed:
  assumes "well_formed (objs b player)" and "well_formed (objs b enemy)"
  shows "well_formed (objs (enemy_acts b) r)"
proof -
  have r: "well_formed (objs b r)" using assms by (cases r) simp_all
  show ?thesis
    using attack_well_formed [of "objs b" enemy r player] assms(2) r
    by (simp add: enemy_acts_simps)
qed

lemma battle_loop_well_formed:
  assumes "\<forall>x \<in> set ins. snd x \<in> randint_range"
    and "well_formed (objs b player)" and "well_formed (objs b enemy)"
  shows "well_formed (objs (state_of (battle_loop ins b)) r)"
  using assms
proof (induction ins b rule: battle_loop.induct)
  case (1 b)
  then show ?case by (cases r) simp_all
next
  case (2 act d rest b)
  have d: "d \<in> randint_range" using "2.prems"(1) by simp
  have rest: "\<forall>x \<in> set rest. snd x \<in> randint_range" using "2.prems"(1) by simp
  define b1 where "b1 = player_acts act d b"
  define b2 where "b2 = enemy_acts b1"
  have w1: "well_formed (objs b1 q)" for q
    unfolding b1_def by (rule player_acts_well_formed [OF d "2.prems"(2,3)])
  have w2: "well_formed (objs b2 q)" for q
    unfolding b2_def by (rule enemy_acts_well_formed [OF w1 w1])
  show ?case
  proof (cases "is_alive player (objs b) \<and> is_alive enemy (objs b)")
    case False
    with "2.prems" show ?thesis by (cases r) auto
  next
    case alive: True
    show ?thesis
    proof (cases "is_alive enemy (objs b1)")
      case False
      with alive w1 show ?thesis by (simp add: Let_def b1_def)
    next
      case True
      have "well_formed (objs (state_of (battle_loop rest (b2\<lparr>turn := turn b2 + 1\<rparr>))) r)"
        using alive True w2
        by (intro "2.IH" [OF alive _ _ _ rest]) (simp_all add: b1_def b2_def)
      with alive True show ?thesis by (simp add: Let_def b1_def b2_def)
    qed
  qed
qed

lemma main_start_well_formed: "well_formed (objs main_start r)"
  by (cases r) (simp_all add: main_start_def well_formed_def Character_init_def)

text \<open>
  Whatever the player chooses and whatever \<^verbatim>\<open>randint(10, 20)\<close> draws, the state
  in which the loop of \<^verbatim>\<open>main\<close> stands or ends is well formed, and so are the
  states of the round that follows: before the player's action, after it and after the
  enemy's attack. In all of them \<^verbatim>\<open>display_status\<close> returns the two bars.
\<close>

lemma main_display_status:
  assumes "\<forall>x \<in> set ins. snd x \<in> randint_range" and "d \<in> randint_range"
  defines "b \<equiv> state_of (main ins)"
  shows "\<exists>bars. display_status (objs b) = Inr bars"
    and "\<exists>bars. display_status (objs (player_acts act d b)) = Inr bars"
    and "\<exists>bars. display_status (objs (enemy_acts (player_acts act d b))) = Inr bars"
proof -
  have w: "well_formed (objs b r)" for r
    unfolding b_def main_def
    by (rule battle_loop_well_formed [OF assms(1) main_start_well_formed main_start_well_formed])
  have w1: "well_formed (objs (player_acts act d b) r)" for r
    by (rule player_acts_well_formed [OF assms(2) w w])
  have w2: "well_formed (objs (enemy_acts (player_acts act d b)) r)" for r
    by (rule enemy_acts_well_formed [OF w1 w1])
  show "\<exists>bars. display_status (objs b) = Inr bars"
    by (rule display_status_ok [OF w w])
  show "\<exists>bars. display_status (objs (player_acts act d b)) = Inr bars"
    by (rule display_status_ok [OF w1 w1])
  show "\<exists>bars. display_status (objs (enemy_acts (player_acts act d b))) = Inr bars"
    by (rule display_status_ok [OF w2 w2])
qed

end
